theory Spec2Isabelle
  imports Main "HOL-Library.Word" "HOL-Library.Monad_Syntax"
begin

unbundle bit_operations_syntax

section \<open>USB command line interpreter (usbd\_cli.c, usbd\_cli\_commands.c)\<close>

text \<open>
  The interpreter keeps six file-level variables: the two byte arrays
  \<open>CommandBuffer\<close> and \<open>ResponseBuffer\<close>, the two \<open>uint16_t\<close> cursors
  \<open>CmdBufIdxIn\<close> and \<open>CmdBufIdxOut\<close>, the \<open>uint16_t\<close> flag mask \<open>CLI_Status\<close>
  and the pointer \<open>pResponse\<close>. They are the fields of the record \<open>cli_state\<close>.
  A byte (\<open>uint8_t\<close>) is a \<open>char\<close>, an array is a list whose length is the array's size,
  a \<open>uint16_t\<close> is a \<open>16 word\<close>.

  Every function that touches memory returns an \<open>option\<close>: \<open>None\<close> stands for
  behaviour the C standard leaves undefined (a read or write outside an array, a string
  function that finds no terminator inside the array, the read of an uninitialised
  local). \<open>Some\<close> carries the result and the new state.
\<close>

subsection \<open>Configuration and types\<close>

text \<open>
  The header usbd\_cli.h is not among the sources. Its four configuration macros are
  the fields of \<open>cli_config\<close>, a parameter of every function that uses them; the two
  strings are held without their terminating zero byte. Its result codes and the
  status code of usbd\_def.h are enumerations.
\<close>

record cli_config =
  CLI_COMMAND_LENGTH :: nat
  CLI_RESPONSE_LENGTH :: nat
  CLI_STRING_NEWLINE :: string
  CLI_STRING_PROMPT :: string

datatype cli_result = CLI_RESULT_OK | CLI_RESULT_FAIL | CLI_RESULT_INVALID

datatype usbd_status = USBD_OK | USBD_BUSY | USBD_FAIL

text \<open>The pointers the two entry points handle: each names the array it points into.\<close>

datatype pointer =
    NULL
  | CommandBuffer_at nat
  | ResponseBuffer_ptr
  | String_Newline
  | String_Prompt
  | ErrorMessage_CmdOvf
  | ErrorMessage_Other

record cli_state =
  CommandBuffer :: string
  ResponseBuffer :: string
  CmdBufIdxIn :: "16 word"
  CmdBufIdxOut :: "16 word"
  CLI_Status :: "16 word"
  pResponse :: pointer

text \<open>
  A command function receives the argument pointer (here the string it points to, or
  \<open>None\<close> for a null pointer) and the response buffer; it returns its result code and
  the response buffer as it left it.
\<close>

type_synonym CommandFxn = "string option \<Rightarrow> string \<Rightarrow> (cli_result \<times> string) option"

record CommandUnit =
  name :: string
  command :: CommandFxn

subsection \<open>Constants of usbd\_cli.c\<close>

definition NUL :: char where
  "NUL = CHR 0x00"

definition STRING_CMD_OVERFLOW :: string where
  "STRING_CMD_OVERFLOW = ''Error : Command buffer overflow.''"

definition STRING_OTHER :: string where
  "STRING_OTHER = ''Error : Unexpected problem occured.''"

definition STRING_CMD_NOTFOUND :: string where
  "STRING_CMD_NOTFOUND = ''Error : Command not found.''"

definition STRING_ARG_INVALID :: string where
  "STRING_ARG_INVALID = ''Error : Argument invalid.''"

definition ERRNO_CMD_NOTFOUND :: nat where
  "ERRNO_CMD_NOTFOUND = 0"

definition ERRNO_ARG_INVALID :: nat where
  "ERRNO_ARG_INVALID = 1"

definition CLI_STATUS_ECHO :: "16 word" where
  "CLI_STATUS_ECHO = 0x1"

definition CLI_STATUS_NEWLINE :: "16 word" where
  "CLI_STATUS_NEWLINE = 0x2"

definition CLI_STATUS_PROMPT :: "16 word" where
  "CLI_STATUS_PROMPT = 0x4"

definition CLI_STATUS_RESPONSE :: "16 word" where
  "CLI_STATUS_RESPONSE = 0x8"

definition CLI_STATUS_BREAK :: "16 word" where
  "CLI_STATUS_BREAK = 0x10"

definition CLI_STATUS_BUSY :: "16 word" where
  "CLI_STATUS_BUSY = 0x20"

definition CLI_STATUS_CMDOVF :: "16 word" where
  "CLI_STATUS_CMDOVF = 0x100"

definition CLI_STATUS_ERROR_MASK :: "16 word" where
  "CLI_STATUS_ERROR_MASK = 0xF00"

subsection \<open>Macros\<close>

definition IS_STATUS :: "cli_state \<Rightarrow> 16 word \<Rightarrow> bool" where
  "IS_STATUS s flag \<longleftrightarrow> CLI_Status s AND flag = flag"

definition IS_ANY_STATUS :: "cli_state \<Rightarrow> 16 word \<Rightarrow> bool" where
  "IS_ANY_STATUS s flag \<longleftrightarrow> CLI_Status s AND flag \<noteq> 0"

definition SET_STATUS :: "cli_state \<Rightarrow> 16 word \<Rightarrow> cli_state" where
  "SET_STATUS s flag = s\<lparr>CLI_Status := CLI_Status s OR flag\<rparr>"

definition CLEAR_STATUS :: "cli_state \<Rightarrow> 16 word \<Rightarrow> cli_state" where
  "CLEAR_STATUS s flag = s\<lparr>CLI_Status := CLI_Status s AND NOT flag\<rparr>"

definition UPDATE_STATUS :: "cli_state \<Rightarrow> 16 word \<Rightarrow> 16 word \<Rightarrow> cli_state" where
  "UPDATE_STATUS s sflag cflag = s\<lparr>CLI_Status := (CLI_Status s AND NOT cflag) OR sflag\<rparr>"

definition IS_CHAR_VALID :: "char \<Rightarrow> bool" where
  "IS_CHAR_VALID c \<longleftrightarrow>
     c = CHR 0x0D \<or> c = CHR 0x0A \<or>
     ((of_char (CHR '' '') :: nat) \<le> of_char c \<and> (of_char c :: nat) \<le> of_char (CHR ''~''))"

subsection \<open>The C string functions on an array\<close>

text \<open>
  \<open>c_str buf p\<close> is the string that starts at index \<open>p\<close> of the array \<open>buf\<close>: the bytes
  before the first zero byte. \<open>strlen\<close>, \<open>strstr\<close> and \<open>strchr\<close> read the array up to
  that zero byte; when the array holds none from \<open>p\<close> on they read past its end.
\<close>

definition c_str :: "string \<Rightarrow> nat \<Rightarrow> string" where
  "c_str buf p = takeWhile (\<lambda>c. c \<noteq> NUL) (drop p buf)"

definition terminated :: "string \<Rightarrow> nat \<Rightarrow> bool" where
  "terminated buf p \<longleftrightarrow> NUL \<in> set (drop p buf)"

definition strlen :: "string \<Rightarrow> nat \<Rightarrow> nat option" where
  "strlen buf p = (if terminated buf p then Some (length (c_str buf p)) else None)"

text \<open>The first position of the string \<open>h\<close> at which \<open>n\<close> occurs.\<close>

fun find_substring :: "string \<Rightarrow> string \<Rightarrow> nat option" where
  "find_substring [] n = (if n = [] then Some 0 else None)"
| "find_substring (c # h) n =
     (if take (length n) (c # h) = n then Some 0
      else map_option Suc (find_substring h n))"

text \<open>
  \<open>strstr\<close> on the array from its first byte: \<open>Some None\<close> is the null pointer,
  \<open>Some (Some k)\<close> the pointer to index \<open>k\<close>.
\<close>

definition strstr :: "string \<Rightarrow> string \<Rightarrow> nat option option" where
  "strstr buf needle =
     (if terminated buf 0 then Some (find_substring (c_str buf 0) needle) else None)"

definition strchr :: "string \<Rightarrow> nat \<Rightarrow> char \<Rightarrow> nat option option" where
  "strchr buf p ch =
     (if terminated buf p
      then Some (if ch \<in> set (c_str buf p)
                 then Some (p + length (takeWhile (\<lambda>c. c \<noteq> ch) (c_str buf p)))
                 else None)
      else None)"

subsection \<open>Private functions\<close>

text \<open>
  \<open>StrTrim\<close> advances the pointer over spaces. Its loop condition compares the pointer
  itself (not the byte) with zero, which holds for every pointer into the buffer, so
  the loop ends only at a byte that is not a space.
\<close>

function StrTrim :: "string \<Rightarrow> nat \<Rightarrow> nat option" where
  "StrTrim buf p =
     (if p < length buf
      then (if buf ! p = CHR '' '' then StrTrim buf (Suc p) else Some p)
      else None)"
  by pat_completeness auto
termination
  by (relation "measure (\<lambda>(buf, p). length buf - p)") auto

text \<open>
  \<open>StrTrimR\<close>: \<open>pEnd\<close> starts at the terminator of the string at \<open>pStr\<close> and walks
  back, overwriting spaces with zero bytes. \<open>pEnd\<close> stays below the terminator's index,
  which \<open>strlen\<close> found inside the array.
\<close>

function StrTrimR_loop :: "string \<Rightarrow> nat \<Rightarrow> nat \<Rightarrow> string" where
  "StrTrimR_loop buf pStr pEnd =
     (if pStr < pEnd
      then (if buf ! (pEnd - 1) = CHR '' ''
            then StrTrimR_loop (buf[pEnd - 1 := NUL]) pStr (pEnd - 1)
            else buf)
      else buf)"
  by pat_completeness auto
termination
  by (relation "measure (\<lambda>(buf, pStr, pEnd). pEnd)") auto

definition StrTrimR :: "string \<Rightarrow> nat \<Rightarrow> string option" where
  "StrTrimR buf pStr =
     do { n \<leftarrow> strlen buf pStr; Some (StrTrimR_loop buf pStr (pStr + n)) }"

text \<open>The copy loop of \<open>ResponseError\<close>: \<open>pRes[i] = pMsg[i]\<close> for the bytes of the message.\<close>

fun ResponseError_loop :: "string \<Rightarrow> string \<Rightarrow> nat \<Rightarrow> string option" where
  "ResponseError_loop pRes [] i = Some pRes"
| "ResponseError_loop pRes (c # pMsg) i =
     (if i < length pRes then ResponseError_loop (pRes[i := c]) pMsg (Suc i) else None)"

text \<open>\<open>sizeof\<close> of a message array counts its terminating zero byte, which is copied too.\<close>

definition ResponseError :: "string \<Rightarrow> nat \<Rightarrow> string option" where
  "ResponseError pRes ErrNo =
     (if ErrNo = ERRNO_CMD_NOTFOUND then ResponseError_loop pRes (STRING_CMD_NOTFOUND @ [NUL]) 0
      else if ErrNo = ERRNO_ARG_INVALID then ResponseError_loop pRes (STRING_ARG_INVALID @ [NUL]) 0
      else Some pRes)"

definition ResponseError_CmdNotFound :: CommandFxn where
  "ResponseError_CmdNotFound pArg pRes =
     do { r \<leftarrow> ResponseError pRes ERRNO_CMD_NOTFOUND; Some (CLI_RESULT_OK, r) }"

text \<open>
  \<open>BufferInput\<close>: the list \<open>pInput\<close> holds the \<open>length\<close> bytes the caller passes. A byte is
  stored at \<open>CmdBufIdxIn\<close>, the index is incremented, and the loop breaks with
  \<open>CLI_RESULT_FAIL\<close> as soon as the index has reached \<open>CLI_COMMAND_LENGTH\<close>.
\<close>

fun BufferInput :: "cli_config \<Rightarrow> cli_state \<Rightarrow> string \<Rightarrow> (cli_result \<times> cli_state) option" where
  "BufferInput cfg s [] = Some (CLI_RESULT_OK, s)"
| "BufferInput cfg s (c # pInput) =
     (if IS_CHAR_VALID c
      then (if unat (CmdBufIdxIn s) < length (CommandBuffer s)
            then (if CLI_COMMAND_LENGTH cfg \<le> unat (CmdBufIdxIn s + 1)
                  then Some (CLI_RESULT_FAIL,
                             s\<lparr>CommandBuffer := (CommandBuffer s)[unat (CmdBufIdxIn s) := c],
                               CmdBufIdxIn := CmdBufIdxIn s + 1\<rparr>)
                  else BufferInput cfg
                         (s\<lparr>CommandBuffer := (CommandBuffer s)[unat (CmdBufIdxIn s) := c],
                           CmdBufIdxIn := CmdBufIdxIn s + 1\<rparr>) pInput)
            else None)
      else BufferInput cfg s pInput)"

text \<open>The table scan of \<open>InvokeCommand\<close>: it does not stop at a match, so the last one wins.\<close>

definition seek_command :: "CommandUnit list \<Rightarrow> string \<Rightarrow> CommandFxn" where
  "seek_command CommandSet pCmd =
     fold (\<lambda>u Command. if pCmd = name u then command u else Command)
       CommandSet ResponseError_CmdNotFound"

text \<open>
  The first part of \<open>InvokeCommand\<close> (trimming and splitting, up to the table scan)
  works on the command buffer alone. It returns the buffer and either \<open>None\<close> for an
  empty command or the two pointers \<open>pCmd\<close> and \<open>pArg\<close> (\<open>pArg\<close> may be null).
\<close>

definition InvokeCommand_split :: "string \<Rightarrow> (string \<times> (nat \<times> nat option) option) option" where
  "InvokeCommand_split buf =
     do {
       pCmd \<leftarrow> StrTrim buf 0;
       buf1 \<leftarrow> StrTrimR buf pCmd;
       n \<leftarrow> strlen buf1 pCmd;
       if (of_nat n :: 16 word) = 0 then Some (buf1, None)
       else do {
         a \<leftarrow> strchr buf1 pCmd (CHR '' '');
         case a of
           None \<Rightarrow> Some (buf1, Some (pCmd, None))
         | Some pArg \<Rightarrow>
             do {
               pArg' \<leftarrow> StrTrim (buf1[pArg := NUL]) (Suc pArg);
               Some (buf1[pArg := NUL], Some (pCmd, Some pArg'))
             }
       }
     }"

definition InvokeCommand ::
  "cli_config \<Rightarrow> CommandUnit list \<Rightarrow> cli_state \<Rightarrow> (pointer \<times> cli_state) option" where
  "InvokeCommand cfg CommandSet s =
     do {
       (buf, tokens) \<leftarrow> InvokeCommand_split (CommandBuffer s);
       case tokens of
         None \<Rightarrow>
           (if 0 < length (ResponseBuffer s)
            then Some (ResponseBuffer_ptr,
                       s\<lparr>CommandBuffer := buf, ResponseBuffer := (ResponseBuffer s)[0 := NUL]\<rparr>)
            else None)
       | Some (pCmd, pArg) \<Rightarrow>
           do {
             (result, res) \<leftarrow>
               seek_command CommandSet (c_str buf pCmd)
                 (map_option (c_str buf) pArg) (ResponseBuffer s);
             res' \<leftarrow> (if result = CLI_RESULT_INVALID
                       then ResponseError res ERRNO_ARG_INVALID else Some res);
             if 0 < CLI_RESPONSE_LENGTH cfg \<and> CLI_RESPONSE_LENGTH cfg \<le> length res'
             then Some (ResponseBuffer_ptr,
                        s\<lparr>CommandBuffer := buf,
                          ResponseBuffer := res'[CLI_RESPONSE_LENGTH cfg - 1 := NUL]\<rparr>)
             else None
           }
     }"

definition ResetBuffer :: "cli_config \<Rightarrow> cli_state \<Rightarrow> cli_state" where
  "ResetBuffer cfg s =
     s\<lparr>CmdBufIdxIn := 0, CmdBufIdxOut := 0,
       CommandBuffer := replicate (CLI_COMMAND_LENGTH cfg) NUL,
       ResponseBuffer := replicate (CLI_RESPONSE_LENGTH cfg) NUL\<rparr>"

subsection \<open>Exported functions\<close>

definition CLI_Input ::
  "cli_config \<Rightarrow> CommandUnit list \<Rightarrow> cli_state \<Rightarrow> string \<Rightarrow> (usbd_status \<times> cli_state) option" where
  "CLI_Input cfg CommandSet s pInput =
     (if IS_STATUS s CLI_STATUS_BUSY \<or> length pInput = 0 then Some (USBD_OK, s)
      else do {
        (r, s1) \<leftarrow> BufferInput cfg s pInput;
        if r \<noteq> CLI_RESULT_OK
        then Some (USBD_OK, SET_STATUS s1 (CLI_STATUS_BUSY OR CLI_STATUS_CMDOVF))
        else do {
          pNL \<leftarrow> strstr (CommandBuffer s1) (CLI_STRING_NEWLINE cfg);
          case pNL of
            None \<Rightarrow> Some (USBD_OK, s1)
          | Some k \<Rightarrow>
              do {
                (p, s2) \<leftarrow> InvokeCommand cfg CommandSet
                             (s1\<lparr>CommandBuffer := (CommandBuffer s1)[k := NUL]\<rparr>);
                Some (USBD_OK,
                      SET_STATUS (s2\<lparr>pResponse := p\<rparr>) (CLI_STATUS_BUSY OR CLI_STATUS_BREAK))
              }
        }
      })"

text \<open>
  In the error branch of \<open>CLI_Output\<close> the local \<open>error_status\<close> is assigned only when the
  overflow bit is set; with another error bit alone it is read uninitialised.
\<close>

definition CLI_Output :: "cli_config \<Rightarrow> cli_state \<Rightarrow> (pointer \<times> cli_state) option" where
  "CLI_Output cfg s =
     (if IS_ANY_STATUS s CLI_STATUS_ERROR_MASK then
        (if IS_STATUS s CLI_STATUS_CMDOVF
         then Some (NULL,
                UPDATE_STATUS (s\<lparr>pResponse := ErrorMessage_CmdOvf\<rparr>)
                  (CLI_STATUS_RESPONSE OR CLI_STATUS_NEWLINE)
                  (CLI_STATUS_CMDOVF OR CLI_STATUS_ECHO))
         else None)
      else if IS_STATUS s CLI_STATUS_ECHO then
        (if CmdBufIdxOut s < CmdBufIdxIn s then
           do {
             n \<leftarrow> strlen (CommandBuffer s) (unat (CmdBufIdxOut s));
             let s1 = s\<lparr>CmdBufIdxOut := CmdBufIdxOut s + of_nat n\<rparr>;
             Some (CommandBuffer_at (unat (CmdBufIdxOut s)),
                   if IS_STATUS s1 CLI_STATUS_BREAK
                   then UPDATE_STATUS s1
                          ((if 0 < (of_nat n :: 16 word)
                            then CLI_STATUS_RESPONSE else CLI_STATUS_PROMPT)
                           OR CLI_STATUS_NEWLINE)
                          (CLI_STATUS_ECHO OR CLI_STATUS_BREAK)
                   else s1)
           }
         else Some (NULL, s))
      else if IS_STATUS s CLI_STATUS_NEWLINE then
        Some (String_Newline, CLEAR_STATUS s CLI_STATUS_NEWLINE)
      else if IS_STATUS s CLI_STATUS_RESPONSE then
        Some (pResponse s,
              UPDATE_STATUS s (CLI_STATUS_NEWLINE OR CLI_STATUS_PROMPT) CLI_STATUS_RESPONSE)
      else if IS_STATUS s CLI_STATUS_PROMPT then
        Some (String_Prompt,
              UPDATE_STATUS (ResetBuffer cfg s) CLI_STATUS_ECHO
                (CLI_STATUS_PROMPT OR CLI_STATUS_BUSY))
      else
        Some (NULL,
              SET_STATUS (s\<lparr>pResponse := ErrorMessage_Other\<rparr>)
                (CLI_STATUS_RESPONSE OR CLI_STATUS_NEWLINE OR CLI_STATUS_BUSY)))"

subsection \<open>The command table of usbd\_cli\_commands.c\<close>

function TEST_loop :: "string \<Rightarrow> nat \<Rightarrow> string option" where
  "TEST_loop pRes i =
     (if i < 26
      then (if i < length pRes
            then TEST_loop (pRes[i := char_of (i + of_char (CHR ''a''))]) (Suc i)
            else None)
      else Some pRes)"
  by pat_completeness auto
termination
  by (relation "measure (\<lambda>(pRes, i). 26 - i)") auto

definition TEST :: CommandFxn where
  "TEST pArg pRes =
     (if pArg \<noteq> None then Some (CLI_RESULT_INVALID, pRes)
      else do { r \<leftarrow> TEST_loop pRes 0; Some (CLI_RESULT_OK, r) })"

definition CommandSet :: "CommandUnit list" where
  "CommandSet = [\<lparr>name = ''GET_LOG'', command = TEST\<rparr>]"

subsection \<open>The caller's view\<close>

text \<open>
  What the transport reads at the pointer \<open>CLI_Output\<close> returned: \<open>None\<close> for the null
  pointer (nothing pending), otherwise the zero-terminated string at the pointer.
\<close>

definition fragment :: "cli_config \<Rightarrow> cli_state \<Rightarrow> pointer \<Rightarrow> string option" where
  "fragment cfg s p =
     (case p of
        NULL \<Rightarrow> None
      | CommandBuffer_at k \<Rightarrow> Some (c_str (CommandBuffer s) k)
      | ResponseBuffer_ptr \<Rightarrow> Some (c_str (ResponseBuffer s) 0)
      | String_Newline \<Rightarrow> Some (CLI_STRING_NEWLINE cfg)
      | String_Prompt \<Rightarrow> Some (CLI_STRING_PROMPT cfg)
      | ErrorMessage_CmdOvf \<Rightarrow> Some STRING_CMD_OVERFLOW
      | ErrorMessage_Other \<Rightarrow> Some STRING_OTHER)"

text \<open>
  Polling \<open>CLI_Output\<close> until it returns the null pointer, collecting the fragments.
  The number of polls is bounded by the first argument; \<open>None\<close> means that the bound was
  reached or that a poll had no defined result.
\<close>

fun poll_until_idle :: "nat \<Rightarrow> cli_config \<Rightarrow> cli_state \<Rightarrow> (string list \<times> cli_state) option" where
  "poll_until_idle 0 cfg s = None"
| "poll_until_idle (Suc n) cfg s =
     (case CLI_Output cfg s of
        None \<Rightarrow> None
      | Some (p, s') \<Rightarrow>
          (case fragment cfg s' p of
             None \<Rightarrow> Some ([], s')
           | Some f \<Rightarrow>
               (case poll_until_idle n cfg s' of
                  None \<Rightarrow> None
                | Some (fs, s'') \<Rightarrow> Some (f # fs, s''))))"

text \<open>A fixed number of polls, recording what each one returned.\<close>

fun poll :: "nat \<Rightarrow> cli_config \<Rightarrow> cli_state \<Rightarrow> (string option list \<times> cli_state) option" where
  "poll 0 cfg s = Some ([], s)"
| "poll (Suc n) cfg s =
     (case CLI_Output cfg s of
        None \<Rightarrow> None
      | Some (p, s') \<Rightarrow>
          (case poll n cfg s' of
             None \<Rightarrow> None
           | Some (fs, s'') \<Rightarrow> Some (fragment cfg s' p # fs, s'')))"

text \<open>Successive \<open>CLI_Input\<close> calls, one per chunk.\<close>

fun feed :: "cli_config \<Rightarrow> CommandUnit list \<Rightarrow> cli_state \<Rightarrow> string list \<Rightarrow> cli_state option" where
  "feed cfg cmds s [] = Some s"
| "feed cfg cmds s (chunk # chunks) =
     (case CLI_Input cfg cmds s chunk of
        None \<Rightarrow> None
      | Some (r, s') \<Rightarrow> feed cfg cmds s' chunks)"

text \<open>The state at program start: every static variable is zero.\<close>

definition initial_state :: "cli_config \<Rightarrow> cli_state" where
  "initial_state cfg =
     \<lparr>CommandBuffer = replicate (CLI_COMMAND_LENGTH cfg) NUL,
      ResponseBuffer = replicate (CLI_RESPONSE_LENGTH cfg) NUL,
      CmdBufIdxIn = 0, CmdBufIdxOut = 0, CLI_Status = 0, pResponse = NULL\<rparr>"

text \<open>
  The state at the end of a cycle, right after the prompt was returned: both buffers
  reset, only the ECHO flag set.
\<close>

definition idle_state :: "cli_config \<Rightarrow> pointer \<Rightarrow> cli_state" where
  "idle_state cfg p =
     \<lparr>CommandBuffer = replicate (CLI_COMMAND_LENGTH cfg) NUL,
      ResponseBuffer = replicate (CLI_RESPONSE_LENGTH cfg) NUL,
      CmdBufIdxIn = 0, CmdBufIdxOut = 0, CLI_Status = CLI_STATUS_ECHO, pResponse = p\<rparr>"

text \<open>A configuration to evaluate the functions on.\<close>

definition example_config :: cli_config where
  "example_config =
     \<lparr>CLI_COMMAND_LENGTH = 16, CLI_RESPONSE_LENGTH = 32,
      CLI_STRING_NEWLINE = [CHR 0x0D, CHR 0x0A], CLI_STRING_PROMPT = ''> ''\<rparr>"

text \<open>
  The state \<open>CLI_Input\<close> leaves when the idle state of \<open>example_config\<close> is fed the
  line \<open>GET_LOG 1\<close> and the terminator in one call.
\<close>

definition example_dispatched :: cli_state where
  "example_dispatched =
     \<lparr>CommandBuffer = ''GET_LOG'' @ NUL # ''1'' @ NUL # CHR 0x0A # replicate 5 NUL,
      ResponseBuffer = ''Error : Argument invalid.'' @ replicate 7 NUL,
      CmdBufIdxIn = 11, CmdBufIdxOut = 0, CLI_Status = 0x31,
      pResponse = ResponseBuffer_ptr\<rparr>"


text \<open>
  The state \<open>CLI_Input\<close> leaves when the idle state of \<open>example_config\<close> is fed two
  spaces and the terminator in one call.
\<close>

definition example_spaces :: cli_state where
  "example_spaces =
     \<lparr>CommandBuffer = ''  '' @ NUL # CHR 0x0A # replicate 12 NUL,
      ResponseBuffer = replicate 32 NUL,
      CmdBufIdxIn = 4, CmdBufIdxOut = 0, CLI_Status = 0x31,
      pResponse = ResponseBuffer_ptr\<rparr>"

subsection \<open>Sequences of calls and their invariant\<close>

text \<open>Any sequence of calls of the two entry points, from a given state.\<close>

datatype operation = Input string | Output

fun run ::
  "cli_config \<Rightarrow> CommandUnit list \<Rightarrow> cli_state \<Rightarrow> operation list \<Rightarrow> cli_state option" where
  "run cfg cmds s [] = Some s"
| "run cfg cmds s (Input pInput # ops) =
     (case CLI_Input cfg cmds s pInput of
        None \<Rightarrow> None
      | Some (r, s') \<Rightarrow> run cfg cmds s' ops)"
| "run cfg cmds s (Output # ops) =
     (case CLI_Output cfg s of
        None \<Rightarrow> None
      | Some (p, s') \<Rightarrow> run cfg cmds s' ops)"

text \<open>The command buffer holds zero bytes from the write index to its end.\<close>

definition zero_filled :: "cli_config \<Rightarrow> cli_state \<Rightarrow> bool" where
  "zero_filled cfg s \<longleftrightarrow>
     (\<forall>i. unat (CmdBufIdxIn s) \<le> i \<and> i < CLI_COMMAND_LENGTH cfg \<longrightarrow> CommandBuffer s ! i = NUL)"

text \<open>
  The invariant of the two entry points: the array has its declared size, the cursors
  are ordered and inside the array, the tail of the array is zero, no error bit other
  than the overflow bit is set, and a full buffer is always flagged: the busy flag is
  set, and the overflow flag is set or the ECHO flag is clear.
\<close>

definition cli_inv :: "cli_config \<Rightarrow> cli_state \<Rightarrow> bool" where
  "cli_inv cfg s \<longleftrightarrow>
     length (CommandBuffer s) = CLI_COMMAND_LENGTH cfg \<and>
     unat (CmdBufIdxOut s) \<le> unat (CmdBufIdxIn s) \<and>
     unat (CmdBufIdxIn s) \<le> CLI_COMMAND_LENGTH cfg \<and>
     zero_filled cfg s \<and>
     CLI_Status s AND 0xE00 = 0 \<and>
     (unat (CmdBufIdxIn s) = CLI_COMMAND_LENGTH cfg \<longrightarrow>
        IS_STATUS s CLI_STATUS_BUSY \<and>
        (IS_STATUS s CLI_STATUS_CMDOVF \<or> \<not> IS_STATUS s CLI_STATUS_ECHO))"

text \<open>
  In a state that accepts input no line is waiting: the command buffer holds no
  terminator.
\<close>

definition no_line :: "cli_config \<Rightarrow> cli_state \<Rightarrow> bool" where
  "no_line cfg s \<longleftrightarrow>
     (\<not> IS_STATUS s CLI_STATUS_BUSY \<longrightarrow>
        strstr (CommandBuffer s) (CLI_STRING_NEWLINE cfg) = Some None)"

text \<open>
  Two states agree on what was dispatched: same response buffer, flags, response
  pointer and read cursor, and the command buffer of the second state starts with
  everything the first state has appended (the line as tokenised in place included).
\<close>

definition same_dispatch :: "cli_state \<Rightarrow> cli_state \<Rightarrow> bool" where
  "same_dispatch a b \<longleftrightarrow>
     ResponseBuffer a = ResponseBuffer b \<and>
     CLI_Status a = CLI_Status b \<and>
     pResponse a = pResponse b \<and>
     CmdBufIdxOut a = CmdBufIdxOut b \<and>
     unat (CmdBufIdxIn a) \<le> unat (CmdBufIdxIn b) \<and>
     take (unat (CmdBufIdxIn a)) (CommandBuffer a) = take (unat (CmdBufIdxIn a)) (CommandBuffer b)"

text \<open>
  A run from program start under \<open>example_config\<close>: five polls bring the interpreter
  to its first prompt, then \<open>GE\<close> is typed and echoed, then \<open>T\<close> is typed. It ends in
  \<open>example_typing\<close>.
\<close>

definition example_ops :: "operation list" where
  "example_ops = [Output, Output, Output, Output, Output, Input ''GE'', Output, Input ''T'']"

definition example_typing :: cli_state where
  "example_typing =
     \<lparr>CommandBuffer = ''GET'' @ replicate 13 NUL, ResponseBuffer = replicate 32 NUL,
      CmdBufIdxIn = 3, CmdBufIdxOut = 2, CLI_Status = 1, pResponse = ErrorMessage_Other\<rparr>"

text \<open>
  The state \<open>CLI_Input\<close> leaves when the state at program start (no flag set) is fed
  an empty line, the terminator alone.
\<close>

definition example_first_line :: cli_state where
  "example_first_line =
     \<lparr>CommandBuffer = NUL # CHR 0x0A # replicate 14 NUL, ResponseBuffer = replicate 32 NUL,
      CmdBufIdxIn = 2, CmdBufIdxOut = 0, CLI_Status = 0x30, pResponse = ResponseBuffer_ptr\<rparr>"

section \<open>Properties\<close>

subsection \<open>Input is ignored while busy\<close>

text \<open>
  Claim C6. A call of \<open>CLI_Input\<close> made while the busy flag is set, or with no input
  bytes, returns \<open>USBD_OK\<close> and leaves the whole state as it was: both buffers, both
  indices, the flag mask and the response pointer are those of the state before the
  call, whatever bytes were offered.
\<close>

theorem CLI_Input_backpressure:
  "IS_STATUS s CLI_STATUS_BUSY \<or> pInput = [] \<Longrightarrow>
   CLI_Input cfg cmds s pInput = Some (USBD_OK, s)"
  by (auto simp add: CLI_Input_def)

theorem CLI_Input_backpressure_witness:
  "IS_STATUS (SET_STATUS (idle_state example_config NULL) CLI_STATUS_BUSY) CLI_STATUS_BUSY \<and>
   CLI_Input example_config CommandSet
     (SET_STATUS (idle_state example_config NULL) CLI_STATUS_BUSY) ''GET_LOG''
   = Some (USBD_OK, SET_STATUS (idle_state example_config NULL) CLI_STATUS_BUSY) \<and>
   CLI_Input example_config CommandSet (idle_state example_config NULL) []
   = Some (USBD_OK, idle_state example_config NULL)"
proof -
  have busy: "IS_STATUS (SET_STATUS (idle_state example_config NULL) CLI_STATUS_BUSY) CLI_STATUS_BUSY"
    by (simp add: IS_STATUS_def SET_STATUS_def idle_state_def CLI_STATUS_BUSY_def CLI_STATUS_ECHO_def)
  from busy CLI_Input_backpressure
    [of "SET_STATUS (idle_state example_config NULL) CLI_STATUS_BUSY" "''GET_LOG''"
        example_config CommandSet]
  have a: "CLI_Input example_config CommandSet
     (SET_STATUS (idle_state example_config NULL) CLI_STATUS_BUSY) ''GET_LOG''
   = Some (USBD_OK, SET_STATUS (idle_state example_config NULL) CLI_STATUS_BUSY)"
    by simp
  from CLI_Input_backpressure [of "idle_state example_config NULL" "[]" example_config CommandSet]
  have b: "CLI_Input example_config CommandSet (idle_state example_config NULL) []
   = Some (USBD_OK, idle_state example_config NULL)"
    by simp
  from busy a b show ?thesis by (intro conjI)
qed

subsection \<open>Error messages of the dispatcher\<close>

lemma c_str_append_NUL: "NUL \<notin> set l \<Longrightarrow> c_str (l @ NUL # r) 0 = l"
  by (induction l) (auto simp add: c_str_def)

lemma terminated_append_NUL: "terminated (l @ NUL # r) 0"
  by (simp add: terminated_def)

lemma update_NUL_tail:
  "length l \<le> k \<Longrightarrow> \<exists>r'. (l @ NUL # r)[k := NUL] = l @ NUL # r' \<and> length r' = length r"
  by (cases "k - length l") (auto simp add: list_update_append)

lemma ResponseError_loop_eq:
  "i + length msg \<le> length pRes \<Longrightarrow>
   ResponseError_loop pRes msg i = Some (take i pRes @ msg @ drop (i + length msg) pRes)"
proof (induction msg arbitrary: pRes i)
  case Nil
  then show ?case by simp
next
  case (Cons c msg)
  then have "i < length pRes" by simp
  moreover have "Suc i + length msg \<le> length (pRes[i := c])" using Cons.prems by simp
  ultimately show ?case
    using Cons.IH [of "Suc i" "pRes[i := c]"]
    by (simp add: take_Suc_conv_app_nth)
qed

lemma length_NOTFOUND: "length STRING_CMD_NOTFOUND = 26"
  by (simp add: STRING_CMD_NOTFOUND_def)

lemma length_INVALID: "length STRING_ARG_INVALID = 25"
  by (simp add: STRING_ARG_INVALID_def)

lemma ResponseError_NOTFOUND:
  "27 \<le> length pRes \<Longrightarrow>
   ResponseError pRes ERRNO_CMD_NOTFOUND = Some (STRING_CMD_NOTFOUND @ NUL # drop 27 pRes)"
  by (simp add: ResponseError_def ResponseError_loop_eq length_NOTFOUND)

lemma ResponseError_INVALID:
  "26 \<le> length pRes \<Longrightarrow>
   ResponseError pRes ERRNO_ARG_INVALID = Some (STRING_ARG_INVALID @ NUL # drop 26 pRes)"
  by (simp add: ResponseError_def ResponseError_loop_eq length_INVALID
      ERRNO_ARG_INVALID_def ERRNO_CMD_NOTFOUND_def)

lemma seek_command_no_match:
  "pCmd \<notin> name ` set cmds \<Longrightarrow> fold (\<lambda>u Command. if pCmd = name u then command u else Command) cmds c = c"
  by (induction cmds arbitrary: c) auto

lemma seek_command_not_found:
  "pCmd \<notin> name ` set cmds \<Longrightarrow> seek_command cmds pCmd = ResponseError_CmdNotFound"
  by (simp add: seek_command_def seek_command_no_match)

lemma NUL_notin_NOTFOUND: "NUL \<notin> set STRING_CMD_NOTFOUND"
  by (simp add: NUL_def STRING_CMD_NOTFOUND_def)

lemma NUL_notin_INVALID: "NUL \<notin> set STRING_ARG_INVALID"
  by (simp add: NUL_def STRING_ARG_INVALID_def)

lemma c_str_message_terminated:
  assumes "NUL \<notin> set msg" "length msg \<le> k"
  shows "c_str ((msg @ NUL # r)[k := NUL]) 0 = msg"
proof -
  from update_NUL_tail [OF assms(2)] obtain r' where "(msg @ NUL # r)[k := NUL] = msg @ NUL # r'"
    by blast
  then show ?thesis using assms(1) by (simp add: c_str_append_NUL)
qed

text \<open>
  Claim C9. Let the first part of \<open>InvokeCommand\<close> have found a non-empty command whose
  name starts at \<open>pCmd\<close>, in a response buffer of at least 27 bytes. If the name
  matches no entry of the command table, \<open>InvokeCommand\<close> leaves the ``command not
  found'' message as the zero-terminated string of the response buffer. If the command
  function selected by the table scan returns \<open>CLI_RESULT_INVALID\<close>, it leaves the
  ``argument invalid'' message there, whatever bytes \<open>res\<close> that function wrote into the
  buffer.
\<close>

theorem InvokeCommand_error_messages:
  assumes split: "InvokeCommand_split (CommandBuffer s) = Some (buf, Some (pCmd, pArg))"
    and len: "length (ResponseBuffer s) = CLI_RESPONSE_LENGTH cfg"
    and size: "27 \<le> CLI_RESPONSE_LENGTH cfg"
  shows "(c_str buf pCmd \<notin> name ` set cmds \<longrightarrow>
            (\<exists>s'. InvokeCommand cfg cmds s = Some (ResponseBuffer_ptr, s') \<and>
                  c_str (ResponseBuffer s') 0 = STRING_CMD_NOTFOUND)) \<and>
         (\<forall>res. seek_command cmds (c_str buf pCmd) (map_option (c_str buf) pArg) (ResponseBuffer s)
                  = Some (CLI_RESULT_INVALID, res) \<and> length res = CLI_RESPONSE_LENGTH cfg \<longrightarrow>
            (\<exists>s'. InvokeCommand cfg cmds s = Some (ResponseBuffer_ptr, s') \<and>
                  c_str (ResponseBuffer s') 0 = STRING_ARG_INVALID))"
proof (intro conjI allI impI)
  assume "c_str buf pCmd \<notin> name ` set cmds"
  then have "seek_command cmds (c_str buf pCmd) = ResponseError_CmdNotFound"
    by (rule seek_command_not_found)
  moreover have "26 \<le> CLI_RESPONSE_LENGTH cfg - 1" using size by simp
  ultimately show "\<exists>s'. InvokeCommand cfg cmds s = Some (ResponseBuffer_ptr, s') \<and>
                  c_str (ResponseBuffer s') 0 = STRING_CMD_NOTFOUND"
    using split len size
    by (simp add: InvokeCommand_def ResponseError_CmdNotFound_def ResponseError_NOTFOUND
        c_str_message_terminated NUL_notin_NOTFOUND length_NOTFOUND)
next
  fix res
  assume h: "seek_command cmds (c_str buf pCmd) (map_option (c_str buf) pArg) (ResponseBuffer s)
                  = Some (CLI_RESULT_INVALID, res) \<and> length res = CLI_RESPONSE_LENGTH cfg"
  moreover have "25 \<le> CLI_RESPONSE_LENGTH cfg - 1" using size by simp
  ultimately show "\<exists>s'. InvokeCommand cfg cmds s = Some (ResponseBuffer_ptr, s') \<and>
                  c_str (ResponseBuffer s') 0 = STRING_ARG_INVALID"
    using split len size
    by (simp add: InvokeCommand_def ResponseError_INVALID
        c_str_message_terminated NUL_notin_INVALID length_INVALID)
qed

theorem InvokeCommand_error_messages_witness:
  "(\<exists>s'. InvokeCommand example_config CommandSet
            ((idle_state example_config NULL)\<lparr>CommandBuffer := ''foo'' @ replicate 13 NUL\<rparr>)
          = Some (ResponseBuffer_ptr, s') \<and>
         c_str (ResponseBuffer s') 0 = STRING_CMD_NOTFOUND) \<and>
   (\<exists>s'. InvokeCommand example_config CommandSet
            ((idle_state example_config NULL)\<lparr>CommandBuffer := ''GET_LOG 1'' @ replicate 7 NUL\<rparr>)
          = Some (ResponseBuffer_ptr, s') \<and>
         c_str (ResponseBuffer s') 0 = STRING_ARG_INVALID)"
proof -
  let ?s1 = "(idle_state example_config NULL)\<lparr>CommandBuffer := ''foo'' @ replicate 13 NUL\<rparr>"
  let ?s2 = "(idle_state example_config NULL)\<lparr>CommandBuffer := ''GET_LOG 1'' @ replicate 7 NUL\<rparr>"
  have split1: "InvokeCommand_split (CommandBuffer ?s1) = Some (''foo'' @ replicate 13 NUL, Some (0, None))"
    by code_simp
  have split2: "InvokeCommand_split (CommandBuffer ?s2)
      = Some (''GET_LOG'' @ NUL # ''1'' @ replicate 7 NUL, Some (0, Some 8))"
    by code_simp
  have len1: "length (ResponseBuffer ?s1) = CLI_RESPONSE_LENGTH example_config"
    by (simp add: idle_state_def)
  have len2: "length (ResponseBuffer ?s2) = CLI_RESPONSE_LENGTH example_config"
    by (simp add: idle_state_def)
  have size: "27 \<le> CLI_RESPONSE_LENGTH example_config"
    by (simp add: example_config_def)
  have nomatch: "c_str (''foo'' @ replicate 13 NUL) 0 \<notin> name ` set CommandSet"
    by code_simp
  have invalid: "seek_command CommandSet (c_str (''GET_LOG'' @ NUL # ''1'' @ replicate 7 NUL) 0)
       (map_option (c_str (''GET_LOG'' @ NUL # ''1'' @ replicate 7 NUL)) (Some 8)) (ResponseBuffer ?s2)
     = Some (CLI_RESULT_INVALID, ResponseBuffer ?s2)"
    by code_simp
  from InvokeCommand_error_messages [OF split1 len1 size, of CommandSet] nomatch
  have a: "\<exists>s'. InvokeCommand example_config CommandSet ?s1 = Some (ResponseBuffer_ptr, s') \<and>
         c_str (ResponseBuffer s') 0 = STRING_CMD_NOTFOUND"
    by blast
  from InvokeCommand_error_messages [OF split2 len2 size, of CommandSet] invalid len2
  have b: "\<exists>s'. InvokeCommand example_config CommandSet ?s2 = Some (ResponseBuffer_ptr, s') \<and>
         c_str (ResponseBuffer s') 0 = STRING_ARG_INVALID"
    by blast
  from a b show ?thesis by blast
qed

subsection \<open>Flags as bits\<close>

lemma and_mask_bit:
  assumes "n < 16"
  shows "(x :: 16 word) AND 2 ^ n = 2 ^ n \<longleftrightarrow> bit x n"
proof
  assume "x AND 2 ^ n = 2 ^ n"
  then have "bit (x AND 2 ^ n) n = bit (2 ^ n :: 16 word) n" by simp
  then show "bit x n" using assms by (simp add: bit_simps)
next
  assume "bit x n"
  then show "x AND 2 ^ n = 2 ^ n" by (intro bit_word_eqI) (auto simp add: bit_simps)
qed

lemma IS_STATUS_ECHO: "IS_STATUS s CLI_STATUS_ECHO \<longleftrightarrow> bit (CLI_Status s) 0"
  using and_mask_bit [of 0 "CLI_Status s"] by (simp add: IS_STATUS_def CLI_STATUS_ECHO_def)

lemma IS_STATUS_NEWLINE: "IS_STATUS s CLI_STATUS_NEWLINE \<longleftrightarrow> bit (CLI_Status s) 1"
  using and_mask_bit [of 1 "CLI_Status s"] by (simp add: IS_STATUS_def CLI_STATUS_NEWLINE_def)

lemma IS_STATUS_PROMPT: "IS_STATUS s CLI_STATUS_PROMPT \<longleftrightarrow> bit (CLI_Status s) 2"
  using and_mask_bit [of 2 "CLI_Status s"] by (simp add: IS_STATUS_def CLI_STATUS_PROMPT_def)

lemma IS_STATUS_RESPONSE: "IS_STATUS s CLI_STATUS_RESPONSE \<longleftrightarrow> bit (CLI_Status s) 3"
  using and_mask_bit [of 3 "CLI_Status s"] by (simp add: IS_STATUS_def CLI_STATUS_RESPONSE_def)

lemma IS_STATUS_BREAK: "IS_STATUS s CLI_STATUS_BREAK \<longleftrightarrow> bit (CLI_Status s) 4"
  using and_mask_bit [of 4 "CLI_Status s"] by (simp add: IS_STATUS_def CLI_STATUS_BREAK_def)

lemma IS_STATUS_BUSY: "IS_STATUS s CLI_STATUS_BUSY \<longleftrightarrow> bit (CLI_Status s) 5"
  using and_mask_bit [of 5 "CLI_Status s"] by (simp add: IS_STATUS_def CLI_STATUS_BUSY_def)

lemma IS_STATUS_CMDOVF: "IS_STATUS s CLI_STATUS_CMDOVF \<longleftrightarrow> bit (CLI_Status s) 8"
  using and_mask_bit [of 8 "CLI_Status s"] by (simp add: IS_STATUS_def CLI_STATUS_CMDOVF_def)

lemma IS_ANY_STATUS_ERROR_MASK:
  "IS_ANY_STATUS s CLI_STATUS_ERROR_MASK \<longleftrightarrow>
   bit (CLI_Status s) 8 \<or> bit (CLI_Status s) 9 \<or> bit (CLI_Status s) 10 \<or> bit (CLI_Status s) 11"
proof -
  have "(0xF00 :: 16 word) = 2 ^ 8 OR 2 ^ 9 OR 2 ^ 10 OR 2 ^ 11" by simp
  then have "CLI_Status s AND 0xF00 =
      (CLI_Status s AND 2 ^ 8) OR (CLI_Status s AND 2 ^ 9) OR
      (CLI_Status s AND 2 ^ 10) OR (CLI_Status s AND 2 ^ 11)"
    by (simp only: bit.conj_disj_distrib)
  then show ?thesis
    by (simp only: IS_ANY_STATUS_def CLI_STATUS_ERROR_MASK_def or_eq_0_iff
        and_exp_eq_0_iff_not_bit) simp
qed

lemmas flag_bits = IS_STATUS_ECHO IS_STATUS_NEWLINE IS_STATUS_PROMPT IS_STATUS_RESPONSE
  IS_STATUS_BREAK IS_STATUS_BUSY IS_STATUS_CMDOVF IS_ANY_STATUS_ERROR_MASK

lemmas flag_values = CLI_STATUS_ECHO_def CLI_STATUS_NEWLINE_def CLI_STATUS_PROMPT_def
  CLI_STATUS_RESPONSE_def CLI_STATUS_BREAK_def CLI_STATUS_BUSY_def CLI_STATUS_CMDOVF_def

lemmas status_updates = SET_STATUS_def CLEAR_STATUS_def UPDATE_STATUS_def

subsection \<open>The 16-bit cursors\<close>

lemma unat_plus_one: "unat (x :: 16 word) < 65535 \<Longrightarrow> unat (x + 1) = Suc (unat x)"
  by (simp add: unat_word_ariths)

lemma unat_plus_of_nat: "unat (x :: 16 word) + k \<le> 65535 \<Longrightarrow> unat (x + of_nat k) = unat x + k"
  by (simp add: unat_word_ariths unat_of_nat)

lemma unat_of_nat_16: "n \<le> 65535 \<Longrightarrow> unat (of_nat n :: 16 word) = n"
  by (simp add: unat_of_nat)

lemma of_nat_16_eq_0: "n \<le> 65535 \<Longrightarrow> (of_nat n :: 16 word) = 0 \<longleftrightarrow> n = 0"
  by (simp add: unat_of_nat flip: unat_eq_0)

lemma of_nat_16_pos: "n \<le> 65535 \<Longrightarrow> 0 < (of_nat n :: 16 word) \<longleftrightarrow> 0 < n"
  by (simp add: word_less_nat_alt unat_of_nat)

subsection \<open>\<open>BufferInput\<close>\<close>

lemma BufferInput_fits:
  assumes "length (CommandBuffer s) = CLI_COMMAND_LENGTH cfg"
    and "CLI_COMMAND_LENGTH cfg \<le> 65535"
    and "unat (CmdBufIdxIn s) + length (filter IS_CHAR_VALID pInput) < CLI_COMMAND_LENGTH cfg"
  shows "BufferInput cfg s pInput =
     Some (CLI_RESULT_OK,
       s\<lparr>CommandBuffer := take (unat (CmdBufIdxIn s)) (CommandBuffer s) @
            filter IS_CHAR_VALID pInput @
            drop (unat (CmdBufIdxIn s) + length (filter IS_CHAR_VALID pInput)) (CommandBuffer s),
         CmdBufIdxIn := CmdBufIdxIn s + of_nat (length (filter IS_CHAR_VALID pInput))\<rparr>)"
  using assms
proof (induction pInput arbitrary: s)
  case Nil
  then show ?case by simp
next
  case (Cons c pInput)
  show ?case
  proof (cases "IS_CHAR_VALID c")
    case False
    then show ?thesis using Cons by simp
  next
    case True
    let ?i = "unat (CmdBufIdxIn s)"
    let ?s' = "s\<lparr>CommandBuffer := (CommandBuffer s)[?i := c], CmdBufIdxIn := CmdBufIdxIn s + 1\<rparr>"
    from Cons.prems True have i: "?i < CLI_COMMAND_LENGTH cfg" "?i < 65535" by simp_all
    then have u: "unat (CmdBufIdxIn s + 1) = Suc ?i" by (simp add: unat_plus_one)
    have "BufferInput cfg ?s' pInput = Some (CLI_RESULT_OK,
       ?s'\<lparr>CommandBuffer := take (unat (CmdBufIdxIn ?s')) (CommandBuffer ?s') @
            filter IS_CHAR_VALID pInput @
            drop (unat (CmdBufIdxIn ?s') + length (filter IS_CHAR_VALID pInput)) (CommandBuffer ?s'),
         CmdBufIdxIn := CmdBufIdxIn ?s' + of_nat (length (filter IS_CHAR_VALID pInput))\<rparr>)"
      using Cons.prems True u by (intro Cons.IH) simp_all
    moreover have "take (Suc ?i) ((CommandBuffer s)[?i := c]) = take ?i (CommandBuffer s) @ [c]"
      using i Cons.prems(1) by (simp add: take_Suc_conv_app_nth)
    ultimately show ?thesis
      using True i u Cons.prems by simp
  qed
qed

lemma BufferInput_overflow:
  assumes "length (CommandBuffer s) = CLI_COMMAND_LENGTH cfg"
    and "CLI_COMMAND_LENGTH cfg \<le> 65535"
    and "unat (CmdBufIdxIn s) < CLI_COMMAND_LENGTH cfg"
    and "CLI_COMMAND_LENGTH cfg \<le> unat (CmdBufIdxIn s) + length (filter IS_CHAR_VALID pInput)"
  shows "BufferInput cfg s pInput =
     Some (CLI_RESULT_FAIL,
       s\<lparr>CommandBuffer := take (unat (CmdBufIdxIn s)) (CommandBuffer s) @
            take (CLI_COMMAND_LENGTH cfg - unat (CmdBufIdxIn s)) (filter IS_CHAR_VALID pInput),
         CmdBufIdxIn := of_nat (CLI_COMMAND_LENGTH cfg)\<rparr>)"
  using assms
proof (induction pInput arbitrary: s)
  case Nil
  then show ?case by simp
next
  case (Cons c pInput)
  show ?case
  proof (cases "IS_CHAR_VALID c")
    case False
    then show ?thesis using Cons by simp
  next
    case True
    let ?i = "unat (CmdBufIdxIn s)"
    let ?N = "CLI_COMMAND_LENGTH cfg"
    let ?s' = "s\<lparr>CommandBuffer := (CommandBuffer s)[?i := c], CmdBufIdxIn := CmdBufIdxIn s + 1\<rparr>"
    from Cons.prems have i: "?i < ?N" "?i < 65535" by simp_all
    then have u: "unat (CmdBufIdxIn s + 1) = Suc ?i" by (simp add: unat_plus_one)
    have upd: "take (Suc ?i) ((CommandBuffer s)[?i := c]) = take ?i (CommandBuffer s) @ [c]"
      using i Cons.prems(1) by (simp add: take_Suc_conv_app_nth)
    have tk: "take (?N - ?i) (c # filter IS_CHAR_VALID pInput)
        = c # take (?N - Suc ?i) (filter IS_CHAR_VALID pInput)"
    proof -
      have "?N - ?i = Suc (?N - Suc ?i)" using i by arith
      then show ?thesis by simp
    qed
    show ?thesis
    proof (cases "?N \<le> Suc ?i")
      case True
      then have eq: "Suc ?i = ?N" using i by simp
      then have "(CommandBuffer s)[?i := c] = take ?i (CommandBuffer s) @ [c]"
        using upd Cons.prems(1) by (metis length_list_update order_refl take_all)
      moreover have "CmdBufIdxIn s + 1 = of_nat ?N"
        using eq [symmetric] by simp
      ultimately show ?thesis
        using \<open>IS_CHAR_VALID c\<close> i u True eq tk Cons.prems(1) by simp
    next
      case False
      have "BufferInput cfg ?s' pInput = Some (CLI_RESULT_FAIL,
         ?s'\<lparr>CommandBuffer := take (unat (CmdBufIdxIn ?s')) (CommandBuffer ?s') @
              take (?N - unat (CmdBufIdxIn ?s')) (filter IS_CHAR_VALID pInput),
           CmdBufIdxIn := of_nat ?N\<rparr>)"
        using Cons.prems \<open>IS_CHAR_VALID c\<close> u False by (intro Cons.IH) simp_all
      then show ?thesis
        using \<open>IS_CHAR_VALID c\<close> i u False upd tk Cons.prems(1) by simp
    qed
  qed
qed

subsection \<open>The output cycle\<close>

lemma fragment_status [simp]: "fragment cfg (s\<lparr>CLI_Status := x\<rparr>) p = fragment cfg s p"
  by (cases p) (simp_all add: fragment_def)

lemma fragment_pResponse [simp]: "fragment cfg (s\<lparr>pResponse := x\<rparr>) p = fragment cfg s p"
  by (cases p) (simp_all add: fragment_def)

lemma CLI_Output_idle: "CLI_Output cfg (idle_state cfg p) = Some (NULL, idle_state cfg p)"
  by (simp add: CLI_Output_def idle_state_def IS_STATUS_def IS_ANY_STATUS_def
      CLI_STATUS_ERROR_MASK_def flag_values)

lemma idle_state_not_busy: "\<not> IS_STATUS (idle_state cfg p) CLI_STATUS_BUSY"
  by (simp add: idle_state_def IS_STATUS_def flag_values)

text \<open>
  From the flag combination RESPONSE, NEWLINE and BUSY the sequencer returns the newline,
  the string at \<open>pResponse\<close>, the newline and the prompt, and ends in the idle state.
\<close>

lemma poll_response_cycle:
  assumes "CLI_Status s = CLI_STATUS_RESPONSE OR CLI_STATUS_NEWLINE OR CLI_STATUS_BUSY"
  shows "poll 4 cfg s =
     Some ([Some (CLI_STRING_NEWLINE cfg), fragment cfg s (pResponse s),
            Some (CLI_STRING_NEWLINE cfg), Some (CLI_STRING_PROMPT cfg)],
           idle_state cfg (pResponse s))"
proof -
  let ?s1 = "s\<lparr>CLI_Status := 0x28\<rparr>"
  let ?s2 = "s\<lparr>CLI_Status := 0x26\<rparr>"
  let ?s3 = "s\<lparr>CLI_Status := 0x24\<rparr>"
  have st: "CLI_Status s = 0x2A" using assms by (simp add: flag_values)
  have 1: "CLI_Output cfg s = Some (String_Newline, ?s1)"
    using st by (simp add: CLI_Output_def IS_STATUS_def IS_ANY_STATUS_def
        CLI_STATUS_ERROR_MASK_def flag_values status_updates)
  have 2: "CLI_Output cfg ?s1 = Some (pResponse s, ?s2)"
    by (simp add: CLI_Output_def IS_STATUS_def IS_ANY_STATUS_def
        CLI_STATUS_ERROR_MASK_def flag_values status_updates)
  have 3: "CLI_Output cfg ?s2 = Some (String_Newline, ?s3)"
    by (simp add: CLI_Output_def IS_STATUS_def IS_ANY_STATUS_def
        CLI_STATUS_ERROR_MASK_def flag_values status_updates)
  have 4: "CLI_Output cfg ?s3 = Some (String_Prompt, idle_state cfg (pResponse s))"
    by (simp add: CLI_Output_def IS_STATUS_def IS_ANY_STATUS_def
        CLI_STATUS_ERROR_MASK_def flag_values status_updates ResetBuffer_def idle_state_def)
  have f: "fragment cfg x String_Newline = Some (CLI_STRING_NEWLINE cfg)"
    "fragment cfg x String_Prompt = Some (CLI_STRING_PROMPT cfg)" for x
    by (simp_all add: fragment_def)
  show ?thesis
    by (simp add: eval_nat_numeral 1 2 3 4 f)
qed

subsection \<open>Overflow on append\<close>

text \<open>
  Claim C3, as the code has it. Let the interpreter accept input and let the input be
  \<open>pre @ c # rest\<close>, where the accepted byte \<open>c\<close> is the one whose append makes the write
  index reach \<open>CLI_COMMAND_LENGTH\<close>. Then \<open>BufferInput\<close> returns \<open>CLI_RESULT_FAIL\<close> to
  \<open>CLI_Input\<close>; the bytes appended so far (those of \<open>pre\<close> that are accepted, and \<open>c\<close>)
  stay in the buffer; \<open>rest\<close> has no influence on the result; \<open>CLI_Input\<close> sets the
  BUSY and CMDOVF flags and returns \<open>USBD_OK\<close> to its own caller.
\<close>

theorem CLI_Input_overflow:
  assumes "\<not> IS_STATUS s CLI_STATUS_BUSY"
    and "length (CommandBuffer s) = CLI_COMMAND_LENGTH cfg"
    and "CLI_COMMAND_LENGTH cfg \<le> 65535"
    and "IS_CHAR_VALID c"
    and "unat (CmdBufIdxIn s) + length (filter IS_CHAR_VALID pre) + 1 = CLI_COMMAND_LENGTH cfg"
  shows "BufferInput cfg s (pre @ c # rest) =
           Some (CLI_RESULT_FAIL,
             s\<lparr>CommandBuffer := take (unat (CmdBufIdxIn s)) (CommandBuffer s) @
                    filter IS_CHAR_VALID pre @ [c],
               CmdBufIdxIn := of_nat (CLI_COMMAND_LENGTH cfg)\<rparr>) \<and>
         CLI_Input cfg cmds s (pre @ c # rest) =
           Some (USBD_OK,
             s\<lparr>CommandBuffer := take (unat (CmdBufIdxIn s)) (CommandBuffer s) @
                    filter IS_CHAR_VALID pre @ [c],
               CmdBufIdxIn := of_nat (CLI_COMMAND_LENGTH cfg),
               CLI_Status := CLI_Status s OR (CLI_STATUS_BUSY OR CLI_STATUS_CMDOVF)\<rparr>) \<and>
         IS_STATUS (s\<lparr>CLI_Status := CLI_Status s OR (CLI_STATUS_BUSY OR CLI_STATUS_CMDOVF)\<rparr>)
           CLI_STATUS_BUSY \<and>
         IS_STATUS (s\<lparr>CLI_Status := CLI_Status s OR (CLI_STATUS_BUSY OR CLI_STATUS_CMDOVF)\<rparr>)
           CLI_STATUS_CMDOVF"
proof -
  let ?N = "CLI_COMMAND_LENGTH cfg"
  let ?i = "unat (CmdBufIdxIn s)"
  have "?N - (?i + length (filter IS_CHAR_VALID pre)) = 1"
    using assms(5) by arith
  then have "take (?N - ?i) (filter IS_CHAR_VALID (pre @ c # rest)) = filter IS_CHAR_VALID pre @ [c]"
    using assms(4,5) by simp
  moreover have "?i < ?N" "?N \<le> ?i + length (filter IS_CHAR_VALID (pre @ c # rest))"
    using assms(4,5) by simp_all
  ultimately have b: "BufferInput cfg s (pre @ c # rest) =
           Some (CLI_RESULT_FAIL,
             s\<lparr>CommandBuffer := take ?i (CommandBuffer s) @ filter IS_CHAR_VALID pre @ [c],
               CmdBufIdxIn := of_nat ?N\<rparr>)"
    using BufferInput_overflow [OF assms(2,3), of "pre @ c # rest"] by simp
  then have "CLI_Input cfg cmds s (pre @ c # rest) =
           Some (USBD_OK,
             s\<lparr>CommandBuffer := take ?i (CommandBuffer s) @ filter IS_CHAR_VALID pre @ [c],
               CmdBufIdxIn := of_nat ?N,
               CLI_Status := CLI_Status s OR (CLI_STATUS_BUSY OR CLI_STATUS_CMDOVF)\<rparr>)"
    using assms(1) by (simp add: CLI_Input_def SET_STATUS_def)
  moreover have "IS_STATUS (s\<lparr>CLI_Status := CLI_Status s OR (CLI_STATUS_BUSY OR CLI_STATUS_CMDOVF)\<rparr>)
           CLI_STATUS_BUSY"
    unfolding IS_STATUS_BUSY by (simp add: flag_values bit_simps)
  moreover have "IS_STATUS (s\<lparr>CLI_Status := CLI_Status s OR (CLI_STATUS_BUSY OR CLI_STATUS_CMDOVF)\<rparr>)
           CLI_STATUS_CMDOVF"
    unfolding IS_STATUS_CMDOVF by (simp add: flag_values bit_simps)
  ultimately show ?thesis using b by simp
qed

theorem CLI_Input_overflow_witness:
  "CLI_Input example_config CommandSet (idle_state example_config NULL) ''0123456789abcdefgh'' =
     Some (USBD_OK,
       \<lparr>CommandBuffer = ''0123456789abcdef'', ResponseBuffer = replicate 32 NUL,
        CmdBufIdxIn = 16, CmdBufIdxOut = 0, CLI_Status = 0x121, pResponse = NULL\<rparr>)"
proof -
  have 1: "\<not> IS_STATUS (idle_state example_config NULL) CLI_STATUS_BUSY"
    by (rule idle_state_not_busy)
  have 2: "length (CommandBuffer (idle_state example_config NULL)) = CLI_COMMAND_LENGTH example_config"
    by (simp add: idle_state_def)
  have 3: "CLI_COMMAND_LENGTH example_config \<le> 65535"
    by (simp add: example_config_def)
  have 4: "IS_CHAR_VALID (CHR ''f'')"
    by (simp add: IS_CHAR_VALID_def)
  have 5: "unat (CmdBufIdxIn (idle_state example_config NULL)) +
      length (filter IS_CHAR_VALID ''0123456789abcde'') + 1 = CLI_COMMAND_LENGTH example_config"
    by (simp add: idle_state_def example_config_def IS_CHAR_VALID_def)
  from CLI_Input_overflow [OF 1 2 3 4 5, where cmds = CommandSet and rest = "''gh''"]
  show ?thesis
    by (simp add: idle_state_def example_config_def IS_CHAR_VALID_def flag_values)
qed

text \<open>
  The claim as stated says that \<open>CLI_Input\<close> reports failure to its caller. On an
  overflowing input it returns \<open>USBD_OK\<close>, with the overflow flag set in the state.
\<close>

theorem CLI_Input_overflow_returns_OK:
  "CLI_Input example_config CommandSet (idle_state example_config NULL) ''0123456789abcdefgh'' =
     Some (USBD_OK,
       \<lparr>CommandBuffer = ''0123456789abcdef'', ResponseBuffer = replicate 32 NUL,
        CmdBufIdxIn = 16, CmdBufIdxOut = 0, CLI_Status = 0x121, pResponse = NULL\<rparr>) \<and>
   USBD_OK \<noteq> USBD_FAIL"
  by code_simp

subsection \<open>Strings in an array\<close>

lemma takeWhile_stops_early:
  assumes "x \<in> set xs" and "\<not> P x"
  shows "length (takeWhile P xs) < length xs"
  using assms by (induction xs) auto

lemma terminated_bound:
  assumes "terminated buf p"
  shows "p + length (c_str buf p) < length buf" and "buf ! (p + length (c_str buf p)) = NUL"
proof -
  let ?d = "drop p buf"
  let ?k = "length (takeWhile (\<lambda>c. c \<noteq> NUL) ?d)"
  from assms have "NUL \<in> set ?d" by (simp add: terminated_def)
  then have k: "?k < length ?d" by (rule takeWhile_stops_early) simp
  then show "p + length (c_str buf p) < length buf" by (simp add: c_str_def)
  from k have "\<not> (?d ! ?k) \<noteq> NUL" by (rule nth_length_takeWhile)
  then show "buf ! (p + length (c_str buf p)) = NUL"
    using k by (simp add: c_str_def)
qed

lemma terminated_less: "terminated buf p \<Longrightarrow> p < length buf"
  using terminated_bound(1) [of buf p] by simp

lemma strlen_Some: "terminated buf p \<Longrightarrow> strlen buf p = Some (length (c_str buf p))"
  by (simp add: strlen_def)

lemma terminatedI: "p \<le> q \<Longrightarrow> q < length buf \<Longrightarrow> buf ! q = NUL \<Longrightarrow> terminated buf p"
  unfolding terminated_def in_set_conv_nth
  by (rule exI [of _ "q - p"]) simp

subsection \<open>Polling\<close>

lemma poll_until_idle_from_poll:
  "poll n cfg s = Some (map Some fs, s') \<Longrightarrow> CLI_Output cfg s' = Some (NULL, s'') \<Longrightarrow>
   poll_until_idle (Suc n) cfg s = Some (fs, s'')"
proof (induction n arbitrary: s fs)
  case 0
  then show ?case by (simp add: fragment_def)
next
  case (Suc n)
  from Suc.prems(1) obtain p t gs where
    out: "CLI_Output cfg s = Some (p, t)" and rest: "poll n cfg t = Some (gs, s')"
    and fs: "map Some fs = fragment cfg t p # gs"
    by (auto split: option.splits prod.splits)
  from fs obtain f fs' where f: "fs = f # fs'" "fragment cfg t p = Some f" "gs = map Some fs'"
    by (cases fs) auto
  from rest f(3) Suc.prems(2) have "poll_until_idle (Suc n) cfg t = Some (fs', s'')"
    by (intro Suc.IH) simp_all
  then show ?case using out f by simp
qed

lemma poll_until_idle_mono:
  "poll_until_idle n cfg s = Some r \<Longrightarrow> n \<le> m \<Longrightarrow> poll_until_idle m cfg s = Some r"
proof (induction n arbitrary: m s r)
  case 0
  then show ?case by simp
next
  case (Suc n)
  then obtain m' where m: "m = Suc m'" "n \<le> m'" by (cases m) auto
  show ?case
  proof (cases "CLI_Output cfg s")
    case None
    then show ?thesis using Suc.prems by simp
  next
    case (Some a)
    obtain p t where a: "a = (p, t)" by (cases a)
    show ?thesis
    proof (cases "fragment cfg t p")
      case None
      then show ?thesis using Suc.prems Some a m by simp
    next
      case f: (Some f)
      with Suc.prems Some a obtain fs u where
        u: "poll_until_idle n cfg t = Some (fs, u)" and r: "r = (f # fs, u)"
        by (auto split: option.splits)
      from Suc.IH [OF u m(2)] show ?thesis using Some a f r m by simp
    qed
  qed
qed

lemma poll_Suc:
  "CLI_Output cfg s = Some (p, t) \<Longrightarrow> poll n cfg t = Some (gs, u) \<Longrightarrow>
   poll (Suc n) cfg s = Some (fragment cfg t p # gs, u)"
  by simp

lemma poll_prompt_cycle:
  assumes "CLI_Status s = CLI_STATUS_PROMPT OR CLI_STATUS_NEWLINE OR CLI_STATUS_BUSY"
  shows "poll 2 cfg s =
     Some ([Some (CLI_STRING_NEWLINE cfg), Some (CLI_STRING_PROMPT cfg)],
           idle_state cfg (pResponse s))"
proof -
  let ?s3 = "s\<lparr>CLI_Status := 0x24\<rparr>"
  have st: "CLI_Status s = 0x26" using assms by (simp add: flag_values)
  have 3: "CLI_Output cfg s = Some (String_Newline, ?s3)"
    using st by (simp add: CLI_Output_def IS_STATUS_def IS_ANY_STATUS_def
        CLI_STATUS_ERROR_MASK_def flag_values status_updates)
  have 4: "CLI_Output cfg ?s3 = Some (String_Prompt, idle_state cfg (pResponse s))"
    by (simp add: CLI_Output_def IS_STATUS_def IS_ANY_STATUS_def
        CLI_STATUS_ERROR_MASK_def flag_values status_updates ResetBuffer_def idle_state_def)
  have f: "fragment cfg x String_Newline = Some (CLI_STRING_NEWLINE cfg)"
    "fragment cfg x String_Prompt = Some (CLI_STRING_PROMPT cfg)" for x
    by (simp_all add: fragment_def)
  show ?thesis
    by (simp add: eval_nat_numeral 3 4 f)
qed

text \<open>
  The output of one dispatched line: the state has the flags ECHO, BUSY and BREAK, as
  \<open>CLI_Input\<close> leaves it after a dispatch from the idle state or while a line was typed.
\<close>

lemma poll_dispatched:
  assumes st: "CLI_Status s = CLI_STATUS_ECHO OR CLI_STATUS_BUSY OR CLI_STATUS_BREAK"
    and lt: "CmdBufIdxOut s < CmdBufIdxIn s"
    and tm: "terminated (CommandBuffer s) (unat (CmdBufIdxOut s))"
    and len: "length (CommandBuffer s) \<le> 65535"
    and res: "pResponse s = ResponseBuffer_ptr"
  shows "poll_until_idle 6 cfg s =
     Some (if c_str (CommandBuffer s) (unat (CmdBufIdxOut s)) = []
           then [[], CLI_STRING_NEWLINE cfg, CLI_STRING_PROMPT cfg]
           else [c_str (CommandBuffer s) (unat (CmdBufIdxOut s)), CLI_STRING_NEWLINE cfg,
                 c_str (ResponseBuffer s) 0, CLI_STRING_NEWLINE cfg, CLI_STRING_PROMPT cfg],
           idle_state cfg ResponseBuffer_ptr)"
proof -
  let ?o = "unat (CmdBufIdxOut s)"
  let ?f = "c_str (CommandBuffer s) ?o"
  let ?t = "s\<lparr>CmdBufIdxOut := CmdBufIdxOut s + of_nat (length ?f),
               CLI_Status := (if ?f = [] then 0x26 else 0x2A)\<rparr>"
  have v: "CLI_Status s = 0x31" using st by (simp add: flag_values)
  from terminated_bound(1) [OF tm] len have "length ?f \<le> 65535" by simp
  then have pos: "0 < (of_nat (length ?f) :: 16 word) \<longleftrightarrow> ?f \<noteq> []"
    by (simp add: of_nat_16_pos)
  have out: "CLI_Output cfg s = Some (CommandBuffer_at ?o, ?t)"
    using v lt tm pos
    by (simp add: CLI_Output_def IS_STATUS_def IS_ANY_STATUS_def strlen_Some
        CLI_STATUS_ERROR_MASK_def flag_values status_updates)
  have fr: "fragment cfg ?t (CommandBuffer_at ?o) = Some ?f"
    by (simp add: fragment_def)
  have idle: "CLI_Output cfg (idle_state cfg ResponseBuffer_ptr)
      = Some (NULL, idle_state cfg ResponseBuffer_ptr)"
    by (rule CLI_Output_idle)
  show ?thesis
  proof (cases "?f = []")
    case True
    then have "CLI_Status ?t = CLI_STATUS_PROMPT OR CLI_STATUS_NEWLINE OR CLI_STATUS_BUSY"
      by (simp add: flag_values)
    from poll_prompt_cycle [OF this, of cfg] res
    have "poll 2 cfg ?t = Some ([Some (CLI_STRING_NEWLINE cfg), Some (CLI_STRING_PROMPT cfg)],
           idle_state cfg ResponseBuffer_ptr)"
      by simp
    from poll_Suc [OF out this] fr True
    have "poll 3 cfg s = Some (map Some [[], CLI_STRING_NEWLINE cfg, CLI_STRING_PROMPT cfg],
           idle_state cfg ResponseBuffer_ptr)"
      by (simp add: eval_nat_numeral)
    from poll_until_idle_from_poll [OF this idle]
    have "poll_until_idle 4 cfg s = Some ([[], CLI_STRING_NEWLINE cfg, CLI_STRING_PROMPT cfg],
           idle_state cfg ResponseBuffer_ptr)"
      by (simp add: eval_nat_numeral)
    from poll_until_idle_mono [OF this, of 6] show ?thesis using True by simp
  next
    case False
    then have "CLI_Status ?t = CLI_STATUS_RESPONSE OR CLI_STATUS_NEWLINE OR CLI_STATUS_BUSY"
      by (simp add: flag_values)
    from poll_response_cycle [OF this, of cfg] res
    have "poll 4 cfg ?t = Some ([Some (CLI_STRING_NEWLINE cfg), Some (c_str (ResponseBuffer s) 0),
            Some (CLI_STRING_NEWLINE cfg), Some (CLI_STRING_PROMPT cfg)],
           idle_state cfg ResponseBuffer_ptr)"
      by (simp add: fragment_def)
    from poll_Suc [OF out this] fr False
    have "poll 5 cfg s = Some (map Some [?f, CLI_STRING_NEWLINE cfg, c_str (ResponseBuffer s) 0,
            CLI_STRING_NEWLINE cfg, CLI_STRING_PROMPT cfg],
           idle_state cfg ResponseBuffer_ptr)"
      by (simp add: eval_nat_numeral)
    from poll_until_idle_from_poll [OF this idle]
    show ?thesis using False by (simp add: eval_nat_numeral)
  qed
qed

subsection \<open>One echo step\<close>

text \<open>
  Claim C5, as the code has it. Take a call of \<open>CLI_Output\<close> in a state with no error
  flag, the ECHO flag set, the read cursor strictly behind the write cursor, and a zero
  byte in the buffer at or after the read cursor (the buffer being at most 65535 bytes
  long). The call returns the pointer to the read cursor, so the fragment is the string
  from the read cursor up to its terminator. The read cursor is advanced by the length
  of that fragment: it then stands at the terminator, not past it. If the BREAK flag
  (a line was dispatched) is set, the call clears ECHO and BREAK and sets NEWLINE with
  RESPONSE (fragment non-empty) or PROMPT (fragment empty), so no further fragment of
  the line is echoed; otherwise the flags are unchanged.
\<close>

theorem CLI_Output_echo:
  assumes "\<not> IS_ANY_STATUS s CLI_STATUS_ERROR_MASK"
    and "IS_STATUS s CLI_STATUS_ECHO"
    and "CmdBufIdxOut s < CmdBufIdxIn s"
    and "terminated (CommandBuffer s) (unat (CmdBufIdxOut s))"
    and "length (CommandBuffer s) \<le> 65535"
  shows "\<exists>s'. CLI_Output cfg s = Some (CommandBuffer_at (unat (CmdBufIdxOut s)), s') \<and>
           fragment cfg s' (CommandBuffer_at (unat (CmdBufIdxOut s)))
             = Some (c_str (CommandBuffer s) (unat (CmdBufIdxOut s))) \<and>
           unat (CmdBufIdxOut s')
             = unat (CmdBufIdxOut s) + length (c_str (CommandBuffer s) (unat (CmdBufIdxOut s))) \<and>
           CommandBuffer s' ! unat (CmdBufIdxOut s') = NUL \<and>
           (IS_STATUS s CLI_STATUS_BREAK \<longrightarrow>
              \<not> IS_STATUS s' CLI_STATUS_ECHO \<and> \<not> IS_STATUS s' CLI_STATUS_BREAK \<and>
              IS_STATUS s' CLI_STATUS_NEWLINE \<and>
              (if c_str (CommandBuffer s) (unat (CmdBufIdxOut s)) = []
               then IS_STATUS s' CLI_STATUS_PROMPT else IS_STATUS s' CLI_STATUS_RESPONSE)) \<and>
           (\<not> IS_STATUS s CLI_STATUS_BREAK \<longrightarrow> CLI_Status s' = CLI_Status s)"
proof -
  let ?o = "unat (CmdBufIdxOut s)"
  let ?f = "c_str (CommandBuffer s) ?o"
  let ?s1 = "s\<lparr>CmdBufIdxOut := CmdBufIdxOut s + of_nat (length ?f)\<rparr>"
  let ?s' = "if IS_STATUS ?s1 CLI_STATUS_BREAK
             then UPDATE_STATUS ?s1
                    ((if 0 < (of_nat (length ?f) :: 16 word)
                      then CLI_STATUS_RESPONSE else CLI_STATUS_PROMPT) OR CLI_STATUS_NEWLINE)
                    (CLI_STATUS_ECHO OR CLI_STATUS_BREAK)
             else ?s1"
  from terminated_bound [OF assms(4)] assms(5)
  have b: "?o + length ?f \<le> 65535" "CommandBuffer s ! (?o + length ?f) = NUL" by simp_all
  then have len: "length ?f \<le> 65535" by simp
  have out: "CLI_Output cfg s = Some (CommandBuffer_at ?o, ?s')"
    using assms(1-4) by (simp add: CLI_Output_def strlen_Some Let_def)
  have u: "unat (CmdBufIdxOut ?s') = ?o + length ?f"
    using b(1) by (simp add: unat_plus_of_nat UPDATE_STATUS_def)
  have cb: "CommandBuffer ?s' = CommandBuffer s"
    by (simp add: UPDATE_STATUS_def)
  have pos: "0 < (of_nat (length ?f) :: 16 word) \<longleftrightarrow> ?f \<noteq> []"
    using len by (simp add: of_nat_16_pos)
  have brk: "IS_STATUS ?s1 CLI_STATUS_BREAK = IS_STATUS s CLI_STATUS_BREAK"
    by (simp add: IS_STATUS_def)
  have flags: "IS_STATUS s CLI_STATUS_BREAK \<longrightarrow>
              \<not> IS_STATUS ?s' CLI_STATUS_ECHO \<and> \<not> IS_STATUS ?s' CLI_STATUS_BREAK \<and>
              IS_STATUS ?s' CLI_STATUS_NEWLINE \<and>
              (if ?f = [] then IS_STATUS ?s' CLI_STATUS_PROMPT else IS_STATUS ?s' CLI_STATUS_RESPONSE)"
    unfolding brk pos flag_bits
    by (simp add: UPDATE_STATUS_def flag_values bit_simps)
  have keep: "\<not> IS_STATUS s CLI_STATUS_BREAK \<longrightarrow> CLI_Status ?s' = CLI_Status s"
    unfolding brk by simp
  have fr: "fragment cfg ?s' (CommandBuffer_at ?o) = Some ?f"
    by (simp add: fragment_def cb)
  show ?thesis
    using out fr u b(2) cb flags keep by (intro exI [of _ ?s']) (simp only: simp_thms)
qed

theorem CLI_Output_echo_witness:
  "\<exists>s'. CLI_Output example_config example_dispatched = Some (CommandBuffer_at 0, s') \<and>
         fragment example_config s' (CommandBuffer_at 0) = Some ''GET_LOG'' \<and>
         unat (CmdBufIdxOut s') = 7 \<and>
         CommandBuffer s' ! 7 = NUL \<and>
         \<not> IS_STATUS s' CLI_STATUS_ECHO"
proof -
  have 1: "\<not> IS_ANY_STATUS example_dispatched CLI_STATUS_ERROR_MASK"
    by code_simp
  have 2: "IS_STATUS example_dispatched CLI_STATUS_ECHO"
    by code_simp
  have 3: "CmdBufIdxOut example_dispatched < CmdBufIdxIn example_dispatched"
    by (simp add: example_dispatched_def)
  have 4: "terminated (CommandBuffer example_dispatched) (unat (CmdBufIdxOut example_dispatched))"
    by code_simp
  have 5: "length (CommandBuffer example_dispatched) \<le> 65535"
    by (simp add: example_dispatched_def)
  have 6: "IS_STATUS example_dispatched CLI_STATUS_BREAK"
    by code_simp
  have 7: "unat (CmdBufIdxOut example_dispatched) = 0"
    by (simp add: example_dispatched_def)
  have 8: "c_str (CommandBuffer example_dispatched) 0 = ''GET_LOG''"
    by code_simp
  from CLI_Output_echo [OF 1 2 3 4 5, of example_config] 6 show ?thesis
    unfolding 7 8 by (auto simp add: eval_nat_numeral)
qed

text \<open>
  The claim as stated has the cursor advanced past the terminator and the argument of
  a dispatched line \<open>name arg\<close> echoed as a fragment of its own. For the line
  \<open>GET_LOG 1\<close> fed to the idle state in one call, the first poll leaves the read
  cursor at index 7, the terminator of the name; the argument at index 8 is never
  returned: the fragments are the name, the newline, the response, the newline and the
  prompt.
\<close>

theorem CLI_Output_echo_counterexample:
  "CLI_Input example_config CommandSet (idle_state example_config NULL)
     (''GET_LOG 1'' @ [CHR 0x0D, CHR 0x0A]) = Some (USBD_OK, example_dispatched) \<and>
   CLI_Output example_config example_dispatched
     = Some (CommandBuffer_at 0, example_dispatched\<lparr>CmdBufIdxOut := 7, CLI_Status := 0x2A\<rparr>) \<and>
   CommandBuffer example_dispatched ! 7 = NUL \<and>
   c_str (CommandBuffer example_dispatched) 8 = ''1'' \<and>
   poll_until_idle 6 example_config example_dispatched
     = Some ([''GET_LOG'', [CHR 0x0D, CHR 0x0A], ''Error : Argument invalid.'',
              [CHR 0x0D, CHR 0x0A], ''> ''],
             idle_state example_config ResponseBuffer_ptr) \<and>
   map_option fst (poll_until_idle 6 example_config example_dispatched)
     \<noteq> Some [''GET_LOG'', ''1'', [CHR 0x0D, CHR 0x0A], ''Error : Argument invalid.'',
              [CHR 0x0D, CHR 0x0A], ''> '']"
  by code_simp

subsection \<open>Draining an overflow\<close>

lemma IS_CHAR_VALID_not_NUL: "IS_CHAR_VALID c \<Longrightarrow> c \<noteq> NUL"
  by (auto simp add: IS_CHAR_VALID_def NUL_def)

text \<open>The idle state accepts a byte that is not a line terminator by itself.\<close>

lemma CLI_Input_idle_byte:
  assumes "IS_CHAR_VALID c" and "1 < CLI_COMMAND_LENGTH cfg" and "CLI_COMMAND_LENGTH cfg \<le> 65535"
    and "find_substring [c] (CLI_STRING_NEWLINE cfg) = None"
  shows "CLI_Input cfg cmds (idle_state cfg p) [c] =
     Some (USBD_OK, (idle_state cfg p)
       \<lparr>CommandBuffer := c # replicate (CLI_COMMAND_LENGTH cfg - 1) NUL, CmdBufIdxIn := 1\<rparr>)"
proof -
  let ?s = "idle_state cfg p"
  let ?N = "CLI_COMMAND_LENGTH cfg"
  have "BufferInput cfg ?s [c] = Some (CLI_RESULT_OK,
       ?s\<lparr>CommandBuffer := take (unat (CmdBufIdxIn ?s)) (CommandBuffer ?s) @
            filter IS_CHAR_VALID [c] @
            drop (unat (CmdBufIdxIn ?s) + length (filter IS_CHAR_VALID [c])) (CommandBuffer ?s),
         CmdBufIdxIn := CmdBufIdxIn ?s + of_nat (length (filter IS_CHAR_VALID [c]))\<rparr>)"
    using assms(1-3) by (intro BufferInput_fits) (simp_all add: idle_state_def)
  then have b: "BufferInput cfg ?s [c] = Some (CLI_RESULT_OK,
       ?s\<lparr>CommandBuffer := c # replicate (?N - 1) NUL, CmdBufIdxIn := 1\<rparr>)"
    using assms(1) by (simp add: idle_state_def)
  from assms(2) obtain k where k: "?N - 1 = Suc k" by (cases "?N - 1") auto
  have "strstr (c # replicate (?N - 1) NUL) (CLI_STRING_NEWLINE cfg) = Some None"
    using assms(4) IS_CHAR_VALID_not_NUL [OF assms(1)]
    unfolding k by (simp add: strstr_def terminated_def c_str_def)
  then show ?thesis
    using b idle_state_not_busy [of cfg p] by (simp add: CLI_Input_def)
qed




declare StrTrim.simps [simp del] StrTrimR_loop.simps [simp del] TEST_loop.simps [simp del]

subsection \<open>Blank lines\<close>

lemma find_substring_le: "find_substring h n = Some k \<Longrightarrow> k \<le> length h"
  by (induction h arbitrary: k) (auto split: if_splits)

lemma strstr_found:
  assumes "strstr buf n = Some (Some k)"
  shows "terminated buf 0" and "k \<le> length (c_str buf 0)" and "k < length buf"
proof -
  from assms show t: "terminated buf 0" by (auto simp add: strstr_def split: if_splits)
  from assms t have "find_substring (c_str buf 0) n = Some k" by (simp add: strstr_def)
  then show k: "k \<le> length (c_str buf 0)" by (rule find_substring_le)
  from terminated_bound(1) [OF t] k show "k < length buf" by simp
qed

lemma terminated_update_NUL:
  "terminated buf p \<Longrightarrow> terminated (buf[k := NUL]) p"
proof -
  assume t: "terminated buf p"
  let ?q = "p + length (c_str buf p)"
  from terminated_bound [OF t] have q: "?q < length buf" "buf ! ?q = NUL" by simp_all
  then have "(buf[k := NUL]) ! ?q = NUL" by (cases "k = ?q") simp_all
  with q(1) show ?thesis by (intro terminatedI [of p ?q]) simp_all
qed

lemma c_str_at_NUL: "p < length buf \<Longrightarrow> buf ! p = NUL \<Longrightarrow> c_str buf p = []"
  by (simp add: c_str_def takeWhile_eq_Nil_iff hd_drop_conv_nth)

lemma c_str_not_at_NUL: "p < length buf \<Longrightarrow> buf ! p \<noteq> NUL \<Longrightarrow> c_str buf p \<noteq> []"
  by (simp add: c_str_def takeWhile_eq_Nil_iff hd_drop_conv_nth)

lemma StrTrim_over_spaces:
  assumes "p \<le> k" and "k < length buf" and "buf ! k \<noteq> CHR '' ''"
    and "\<forall>i. p \<le> i \<and> i < k \<longrightarrow> buf ! i = CHR '' ''"
  shows "StrTrim buf p = Some k"
  using assms
proof (induction "k - p" arbitrary: p)
  case 0
  then have "p = k" by simp
  then show ?case using 0 by (subst StrTrim.simps) simp
next
  case (Suc d)
  then have "p < k" "buf ! p = CHR '' ''" by auto
  moreover have "StrTrim buf (Suc p) = Some k"
    using Suc.prems Suc.hyps(2) by (intro Suc.hyps(1)) auto
  ultimately show ?case using Suc.prems by (subst StrTrim.simps) simp
qed

lemma InvokeCommand_split_blank:
  assumes "k < length buf" and "buf ! k = NUL" and "set (take k buf) \<subseteq> {CHR '' ''}"
  shows "InvokeCommand_split buf = Some (buf, None)"
proof -
  have sp: "\<forall>i. 0 \<le> i \<and> i < k \<longrightarrow> buf ! i = CHR '' ''"
  proof (intro allI impI)
    fix i assume "0 \<le> i \<and> i < k"
    then have "take k buf ! i \<in> set (take k buf)" using assms(1) by (intro nth_mem) simp
    then show "buf ! i = CHR '' ''" using assms(3) \<open>0 \<le> i \<and> i < k\<close> by auto
  qed
  have "buf ! k \<noteq> CHR '' ''" using assms(2) by (simp add: NUL_def)
  with assms(1) sp have trim: "StrTrim buf 0 = Some k" by (intro StrTrim_over_spaces) simp_all
  have t: "terminated buf k" using assms(1,2) by (intro terminatedI [of k k]) simp_all
  have e: "c_str buf k = []" using assms(1,2) by (rule c_str_at_NUL)
  have loop: "StrTrimR_loop buf k k = buf" by (subst StrTrimR_loop.simps) simp
  show ?thesis
    by (simp add: InvokeCommand_split_def trim StrTrimR_def strlen_Some [OF t] e loop)
qed

subsection \<open>The sample command\<close>

lemma TEST_loop_eq:
  "i \<le> 26 \<Longrightarrow> 26 \<le> length pRes \<Longrightarrow>
   TEST_loop pRes i =
     Some (take i pRes @ map (\<lambda>j. char_of (j + of_char (CHR ''a''))) [i..<26] @ drop 26 pRes)"
proof (induction pRes i rule: TEST_loop.induct)
  case (1 pRes i)
  show ?case
  proof (cases "i < 26")
    case False
    with "1.prems" have "i = 26" by simp
    then show ?thesis by (subst TEST_loop.simps) simp
  next
    case True
    let ?c = "char_of (i + of_char (CHR ''a''))"
    from True "1.prems" have i: "i < length pRes" by simp
    have "TEST_loop (pRes[i := ?c]) (Suc i) =
       Some (take (Suc i) (pRes[i := ?c]) @
             map (\<lambda>j. char_of (j + of_char (CHR ''a''))) [Suc i..<26] @ drop 26 (pRes[i := ?c]))"
      using True i "1.prems" by (intro "1.IH") simp_all
    moreover have "take (Suc i) (pRes[i := ?c]) = take i pRes @ [?c]"
      using i by (simp add: take_Suc_conv_app_nth)
    moreover have "[i..<26] = i # [Suc i..<26]"
      using True by (simp add: upt_conv_Cons)
    ultimately show ?thesis
      using True i by (subst TEST_loop.simps) simp
  qed
qed

lemma TEST_letters:
  "map (\<lambda>j. char_of (j + of_char (CHR ''a''))) [0..<26] = ''abcdefghijklmnopqrstuvwxyz''"
  by code_simp

lemma TEST_no_argument:
  assumes "26 \<le> length pRes"
  shows "TEST None pRes = Some (CLI_RESULT_OK, ''abcdefghijklmnopqrstuvwxyz'' @ drop 26 pRes)"
proof -
  from TEST_loop_eq [OF le0 assms]
  have "TEST_loop pRes 0 = Some (take 0 pRes @ ''abcdefghijklmnopqrstuvwxyz'' @ drop 26 pRes)"
    unfolding TEST_letters .
  then show ?thesis by (simp add: TEST_def)
qed

lemma seek_GET_LOG: "seek_command CommandSet ''GET_LOG'' = TEST"
  by (simp add: seek_command_def CommandSet_def)

text \<open>The dispatch of the line \<open>GET_LOG\<close>, with any bytes after its terminator.\<close>

lemma InvokeCommand_split_GET_LOG:
  "InvokeCommand_split (''GET_LOG'' @ NUL # r) = Some (''GET_LOG'' @ NUL # r, Some (0, None))"
proof -
  define buf where "buf = ''GET_LOG'' @ NUL # r"
  have trim: "StrTrim buf 0 = Some 0"
    unfolding buf_def by (subst StrTrim.simps) simp
  have t: "terminated buf 0"
    unfolding buf_def by (simp add: terminated_def)
  have c: "c_str buf 0 = ''GET_LOG''"
    unfolding buf_def by (simp add: c_str_def NUL_def)
  have loop: "StrTrimR_loop buf 0 7 = buf"
    unfolding buf_def by (subst StrTrimR_loop.simps) simp
  have len: "strlen buf 0 = Some 7"
    by (simp add: strlen_Some [OF t] c)
  have chr: "strchr buf 0 (CHR '' '') = Some None"
    by (simp add: strchr_def t c)
  have "InvokeCommand_split buf = Some (buf, Some (0, None))"
    by (simp add: InvokeCommand_split_def trim StrTrimR_def len loop chr)
  then show ?thesis unfolding buf_def .
qed

subsection \<open>One full cycle\<close>

text \<open>
  Claim C1. Take any configuration whose line terminator is CR LF, whose command buffer
  has room for the nine bytes and a terminator (at most 65535 bytes, the range of the
  16-bit cursors) and whose response buffer has at least 27 bytes, the command table
  \<open>CommandSet\<close> of usbd\_cli\_commands.c, and the idle state (both buffers reset, only
  ECHO set, busy clear; any value of \<open>pResponse\<close>). Feeding \<open>GET_LOG\<close> CR LF in one
  \<open>CLI_Input\<close> call and polling \<open>CLI_Output\<close> until it returns the null pointer yields
  exactly the fragments \<open>GET_LOG\<close>, CR LF, the 26 lowercase letters, CR LF and the
  prompt string. The state is then idle again: a further poll returns the null pointer,
  the busy flag is clear, and a following \<open>CLI_Input\<close> call stores its byte.
\<close>

theorem end_to_end:
  assumes nl: "CLI_STRING_NEWLINE cfg = [CHR 0x0D, CHR 0x0A]"
    and N: "9 < CLI_COMMAND_LENGTH cfg" "CLI_COMMAND_LENGTH cfg \<le> 65535"
    and M: "27 \<le> CLI_RESPONSE_LENGTH cfg"
  shows "\<exists>s1. CLI_Input cfg CommandSet (idle_state cfg p) (''GET_LOG'' @ [CHR 0x0D, CHR 0x0A])
             = Some (USBD_OK, s1) \<and>
           poll_until_idle 6 cfg s1 =
             Some ([''GET_LOG'', [CHR 0x0D, CHR 0x0A], ''abcdefghijklmnopqrstuvwxyz'',
                    [CHR 0x0D, CHR 0x0A], CLI_STRING_PROMPT cfg],
                   idle_state cfg ResponseBuffer_ptr) \<and>
           CLI_Output cfg (idle_state cfg ResponseBuffer_ptr)
             = Some (NULL, idle_state cfg ResponseBuffer_ptr) \<and>
           \<not> IS_STATUS (idle_state cfg ResponseBuffer_ptr) CLI_STATUS_BUSY \<and>
           CLI_Input cfg CommandSet (idle_state cfg ResponseBuffer_ptr) ''G'' =
             Some (USBD_OK, (idle_state cfg ResponseBuffer_ptr)
               \<lparr>CommandBuffer := CHR ''G'' # replicate (CLI_COMMAND_LENGTH cfg - 1) NUL,
                 CmdBufIdxIn := 1\<rparr>)"
proof -
  let ?N = "CLI_COMMAND_LENGTH cfg"
  let ?M = "CLI_RESPONSE_LENGTH cfg"
  define inp where "inp = ''GET_LOG'' @ [CHR 0x0D, CHR 0x0A]"
  define letters where "letters = ''abcdefghijklmnopqrstuvwxyz''"
  from N(1) obtain m where m: "?N - 9 = Suc m" by (cases "?N - 9") auto
  from M obtain j where j: "?M - 26 = Suc j" by (cases "?M - 26") auto
  define tail where "tail = CHR 0x0A # NUL # replicate m NUL"
  define buf where "buf = ''GET_LOG'' @ NUL # tail"
  define res where "res = (letters @ NUL # replicate j NUL)[?M - 1 := NUL]"
  define a where "a = idle_state cfg p"
  define b where "b = a\<lparr>CommandBuffer := ''GET_LOG'' @ CHR 0x0D # tail, CmdBufIdxIn := 9\<rparr>"
  define c where "c = b\<lparr>CommandBuffer := buf\<rparr>"
  define d where "d = c\<lparr>ResponseBuffer := res\<rparr>"
  define e where "e = d\<lparr>pResponse := ResponseBuffer_ptr, CLI_Status := 0x31\<rparr>"
  have valid: "filter IS_CHAR_VALID inp = inp"
    by (simp add: inp_def IS_CHAR_VALID_def)
  have len_inp: "length inp = 9" by (simp add: inp_def)
  have "BufferInput cfg a inp = Some (CLI_RESULT_OK,
       a\<lparr>CommandBuffer := take (unat (CmdBufIdxIn a)) (CommandBuffer a) @
            filter IS_CHAR_VALID inp @
            drop (unat (CmdBufIdxIn a) + length (filter IS_CHAR_VALID inp)) (CommandBuffer a),
         CmdBufIdxIn := CmdBufIdxIn a + of_nat (length (filter IS_CHAR_VALID inp))\<rparr>)"
    using N by (intro BufferInput_fits) (simp_all add: a_def idle_state_def valid len_inp)
  then have input: "BufferInput cfg a inp = Some (CLI_RESULT_OK, b)"
    unfolding valid len_inp by (simp add: a_def b_def idle_state_def m inp_def tail_def)
  have "terminated (CommandBuffer b) 0"
    by (simp add: b_def terminated_def tail_def)
  moreover have "c_str (CommandBuffer b) 0 = inp"
    by (simp add: b_def c_str_def tail_def inp_def NUL_def)
  moreover have "find_substring inp [CHR 0x0D, CHR 0x0A] = Some 7"
    by (simp add: inp_def)
  ultimately have found: "strstr (CommandBuffer b) (CLI_STRING_NEWLINE cfg) = Some (Some 7)"
    by (simp add: strstr_def nl)
  have upd: "b\<lparr>CommandBuffer := (CommandBuffer b)[7 := NUL]\<rparr> = c"
    by (simp add: b_def c_def buf_def eval_nat_numeral)
  have cb: "CommandBuffer c = buf" by (simp add: c_def)
  have rb: "ResponseBuffer c = replicate ?M NUL"
    by (simp add: c_def b_def a_def idle_state_def)
  have split: "InvokeCommand_split buf = Some (buf, Some (0, None))"
    unfolding buf_def by (rule InvokeCommand_split_GET_LOG)
  have name: "c_str buf 0 = ''GET_LOG''"
    by (simp add: buf_def c_str_def NUL_def)
  have "26 \<le> length (replicate ?M NUL)" using M by simp
  from TEST_no_argument [OF this]
  have test: "TEST None (replicate ?M NUL) = Some (CLI_RESULT_OK, letters @ NUL # replicate j NUL)"
    by (simp add: j letters_def)
  have len_letters: "length letters = 26" by (simp add: letters_def)
  have inv: "InvokeCommand cfg CommandSet c = Some (ResponseBuffer_ptr, d)"
    using M j
    by (simp add: InvokeCommand_def cb rb split name seek_GET_LOG test len_letters)
      (simp add: d_def c_def res_def)
  have fin: "SET_STATUS (d\<lparr>pResponse := ResponseBuffer_ptr\<rparr>)
      (CLI_STATUS_BUSY OR CLI_STATUS_BREAK) = e"
    by (simp add: SET_STATUS_def e_def d_def c_def b_def a_def idle_state_def flag_values)
  have nb: "\<not> IS_STATUS a CLI_STATUS_BUSY" unfolding a_def by (rule idle_state_not_busy)
  have ne: "inp \<noteq> []" by (simp add: inp_def)
  have inp: "CLI_Input cfg CommandSet a inp = Some (USBD_OK, e)"
    using nb ne by (simp add: CLI_Input_def input found upd inv fin)
  have "NUL \<notin> set letters" by (simp add: letters_def NUL_def)
  moreover have "length letters \<le> ?M - 1" using M by (simp add: letters_def)
  ultimately have resp: "c_str res 0 = letters"
    unfolding res_def by (rule c_str_message_terminated)
  have e_fields: "CommandBuffer e = buf" "ResponseBuffer e = res" "CmdBufIdxOut e = 0"
    "CmdBufIdxIn e = 9" "pResponse e = ResponseBuffer_ptr" "CLI_Status e = 0x31"
    by (simp_all add: e_def d_def c_def b_def a_def idle_state_def)
  have "poll_until_idle 6 cfg e =
     Some (if c_str (CommandBuffer e) (unat (CmdBufIdxOut e)) = []
           then [[], CLI_STRING_NEWLINE cfg, CLI_STRING_PROMPT cfg]
           else [c_str (CommandBuffer e) (unat (CmdBufIdxOut e)), CLI_STRING_NEWLINE cfg,
                 c_str (ResponseBuffer e) 0, CLI_STRING_NEWLINE cfg, CLI_STRING_PROMPT cfg],
           idle_state cfg ResponseBuffer_ptr)"
  proof (rule poll_dispatched)
    show "CLI_Status e = CLI_STATUS_ECHO OR CLI_STATUS_BUSY OR CLI_STATUS_BREAK"
      by (simp add: e_fields flag_values)
    show "CmdBufIdxOut e < CmdBufIdxIn e" by (simp add: e_fields)
    show "terminated (CommandBuffer e) (unat (CmdBufIdxOut e))"
      by (simp add: e_fields buf_def terminated_def)
    show "length (CommandBuffer e) \<le> 65535"
      using N m by (simp add: e_fields buf_def tail_def)
    show "pResponse e = ResponseBuffer_ptr" by (simp add: e_fields)
  qed
  then have drain: "poll_until_idle 6 cfg e =
             Some ([''GET_LOG'', [CHR 0x0D, CHR 0x0A], letters,
                    [CHR 0x0D, CHR 0x0A], CLI_STRING_PROMPT cfg],
                   idle_state cfg ResponseBuffer_ptr)"
    by (simp add: e_fields name resp nl)
  have "IS_CHAR_VALID (CHR ''G'')" by (simp add: IS_CHAR_VALID_def)
  moreover have "1 < ?N" using N by simp
  moreover have "find_substring ''G'' (CLI_STRING_NEWLINE cfg) = None" by (simp add: nl)
  ultimately have next_input:
    "CLI_Input cfg CommandSet (idle_state cfg ResponseBuffer_ptr) ''G'' =
             Some (USBD_OK, (idle_state cfg ResponseBuffer_ptr)
               \<lparr>CommandBuffer := CHR ''G'' # replicate (?N - 1) NUL, CmdBufIdxIn := 1\<rparr>)"
    using N(2) by (intro CLI_Input_idle_byte)
  show ?thesis
    using inp drain next_input CLI_Output_idle [of cfg ResponseBuffer_ptr]
      idle_state_not_busy [of cfg ResponseBuffer_ptr]
    unfolding inp_def letters_def a_def
    by (intro exI [of _ e]) (simp only: simp_thms)
qed

theorem end_to_end_witness:
  "\<exists>s1. CLI_Input example_config CommandSet (idle_state example_config NULL)
           (''GET_LOG'' @ [CHR 0x0D, CHR 0x0A]) = Some (USBD_OK, s1) \<and>
         poll_until_idle 6 example_config s1 =
           Some ([''GET_LOG'', [CHR 0x0D, CHR 0x0A], ''abcdefghijklmnopqrstuvwxyz'',
                  [CHR 0x0D, CHR 0x0A], ''> ''],
                 idle_state example_config ResponseBuffer_ptr)"
proof -
  have 1: "CLI_STRING_NEWLINE example_config = [CHR 0x0D, CHR 0x0A]"
    by (simp add: example_config_def)
  have 2: "9 < CLI_COMMAND_LENGTH example_config" by (simp add: example_config_def)
  have 3: "CLI_COMMAND_LENGTH example_config \<le> 65535" by (simp add: example_config_def)
  have 4: "27 \<le> CLI_RESPONSE_LENGTH example_config" by (simp add: example_config_def)
  have 5: "CLI_STRING_PROMPT example_config = ''> ''" by (simp add: example_config_def)
  from end_to_end [OF 1 2 3 4, of NULL] show ?thesis
    unfolding 5 by (elim exE conjE) (rule exI, intro conjI, assumption+)
qed

subsection \<open>What the functions leave unchanged\<close>

lemma BufferInput_frame:
  "BufferInput cfg s pInput = Some (r, s1) \<Longrightarrow>
   ResponseBuffer s1 = ResponseBuffer s \<and> CmdBufIdxOut s1 = CmdBufIdxOut s \<and>
   CLI_Status s1 = CLI_Status s \<and> pResponse s1 = pResponse s \<and>
   length (CommandBuffer s1) = length (CommandBuffer s)"
proof (induction pInput arbitrary: s)
  case Nil
  then show ?case by simp
next
  case (Cons c pInput)
  show ?case
  proof (cases "IS_CHAR_VALID c")
    case False
    with Cons show ?thesis by simp
  next
    case True
    let ?s' = "s\<lparr>CommandBuffer := (CommandBuffer s)[unat (CmdBufIdxIn s) := c],
                  CmdBufIdxIn := CmdBufIdxIn s + 1\<rparr>"
    show ?thesis
    proof (cases "CLI_COMMAND_LENGTH cfg \<le> unat (CmdBufIdxIn s + 1)")
      case True
      with Cons.prems \<open>IS_CHAR_VALID c\<close> show ?thesis by (auto split: if_splits)
    next
      case False
      with Cons.prems \<open>IS_CHAR_VALID c\<close> have "BufferInput cfg ?s' pInput = Some (r, s1)"
        by (simp split: if_splits)
      from Cons.IH [OF this] show ?thesis by simp
    qed
  qed
qed

lemma BufferInput_append:
  "BufferInput cfg s (a @ b) =
     (case BufferInput cfg s a of
        None \<Rightarrow> None
      | Some (r, s1) \<Rightarrow> if r = CLI_RESULT_OK then BufferInput cfg s1 b else Some (r, s1))"
  by (induction a arbitrary: s) simp_all

text \<open>The loops and updates of the dispatcher only write zero bytes.\<close>

lemma StrTrimR_loop_writes:
  "length (StrTrimR_loop buf p e) = length buf \<and>
   (\<forall>i. StrTrimR_loop buf p e ! i = buf ! i \<or> StrTrimR_loop buf p e ! i = NUL)"
proof (induction buf p e rule: StrTrimR_loop.induct)
  case (1 buf pStr pEnd)
  show ?case
  proof (cases "pStr < pEnd \<and> buf ! (pEnd - 1) = CHR '' ''")
    case False
    then show ?thesis by (subst (1 2 3) StrTrimR_loop.simps) auto
  next
    case True
    with 1 have IH: "length (StrTrimR_loop (buf[pEnd - 1 := NUL]) pStr (pEnd - 1)) = length buf"
      "\<And>i. StrTrimR_loop (buf[pEnd - 1 := NUL]) pStr (pEnd - 1) ! i = (buf[pEnd - 1 := NUL]) ! i \<or>
           StrTrimR_loop (buf[pEnd - 1 := NUL]) pStr (pEnd - 1) ! i = NUL"
      by simp_all
    have step: "StrTrimR_loop buf pStr pEnd = StrTrimR_loop (buf[pEnd - 1 := NUL]) pStr (pEnd - 1)"
      using True by (subst StrTrimR_loop.simps) simp
    have "(buf[pEnd - 1 := NUL]) ! i = buf ! i \<or> (buf[pEnd - 1 := NUL]) ! i = NUL" for i
      by (cases "i = pEnd - 1"; cases "i < length buf") (simp_all add: list_update_beyond)
    with IH show ?thesis unfolding step by metis
  qed
qed

lemma InvokeCommand_split_writes:
  assumes "InvokeCommand_split buf = Some (buf', t)"
  shows "length buf' = length buf" and "buf' ! i = buf ! i \<or> buf' ! i = NUL"
proof -
  from assms obtain pCmd n where
    buf': "buf' = StrTrimR_loop buf pCmd (pCmd + n) \<or>
           (\<exists>a. buf' = (StrTrimR_loop buf pCmd (pCmd + n))[a := NUL])"
    by (auto simp add: InvokeCommand_split_def StrTrimR_def
        split: Option.bind_splits if_splits option.splits)
  from StrTrimR_loop_writes [of buf pCmd "pCmd + n"]
  have w: "length (StrTrimR_loop buf pCmd (pCmd + n)) = length buf"
    "StrTrimR_loop buf pCmd (pCmd + n) ! i = buf ! i \<or> StrTrimR_loop buf pCmd (pCmd + n) ! i = NUL"
    by simp_all
  from buf' w(1) show "length buf' = length buf" by auto
  from buf' show "buf' ! i = buf ! i \<or> buf' ! i = NUL"
  proof
    assume "buf' = StrTrimR_loop buf pCmd (pCmd + n)"
    with w(2) show ?thesis by simp
  next
    assume "\<exists>a. buf' = (StrTrimR_loop buf pCmd (pCmd + n))[a := NUL]"
    then obtain a where a: "buf' = (StrTrimR_loop buf pCmd (pCmd + n))[a := NUL]" ..
    show ?thesis
      using w(2) unfolding a
      by (cases "i = a"; cases "i < length (StrTrimR_loop buf pCmd (pCmd + n))")
        (simp_all add: list_update_beyond)
  qed
qed

lemma InvokeCommand_frame:
  assumes "InvokeCommand cfg cmds s = Some (p, s')"
  shows "CmdBufIdxIn s' = CmdBufIdxIn s" and "CmdBufIdxOut s' = CmdBufIdxOut s"
    and "CLI_Status s' = CLI_Status s" and "length (CommandBuffer s') = length (CommandBuffer s)"
    and "CommandBuffer s' ! i = CommandBuffer s ! i \<or> CommandBuffer s' ! i = NUL"
    and "p = ResponseBuffer_ptr"
proof -
  from assms obtain buf t where
    split: "InvokeCommand_split (CommandBuffer s) = Some (buf, t)"
    and s': "\<exists>res. s' = s\<lparr>CommandBuffer := buf, ResponseBuffer := res\<rparr>"
    and p: "p = ResponseBuffer_ptr"
    by (auto simp add: InvokeCommand_def split: Option.bind_splits if_splits option.splits prod.splits)
  from s' show "CmdBufIdxIn s' = CmdBufIdxIn s" "CmdBufIdxOut s' = CmdBufIdxOut s"
    "CLI_Status s' = CLI_Status s" by auto
  from s' InvokeCommand_split_writes(1) [OF split]
  show "length (CommandBuffer s') = length (CommandBuffer s)" by auto
  from s' InvokeCommand_split_writes(2) [OF split, of i]
  show "CommandBuffer s' ! i = CommandBuffer s ! i \<or> CommandBuffer s' ! i = NUL" by auto
  from p show "p = ResponseBuffer_ptr" .
qed

subsection \<open>The invariant is preserved\<close>

lemma no_stray_error_bits:
  "(x :: 16 word) AND 0xE00 = 0 \<longleftrightarrow> \<not> bit x 9 \<and> \<not> bit x 10 \<and> \<not> bit x 11"
proof -
  have "(0xE00 :: 16 word) = 2 ^ 9 OR 2 ^ 10 OR 2 ^ 11" by simp
  then have "x AND 0xE00 = (x AND 2 ^ 9) OR (x AND 2 ^ 10) OR (x AND 2 ^ 11)"
    by (simp only: bit.conj_disj_distrib)
  then show ?thesis
    by (simp only: or_eq_0_iff and_exp_eq_0_iff_not_bit)
qed

lemma c_str_length_le:
  assumes "p \<le> q" and "q < length buf" and "buf ! q = NUL"
  shows "length (c_str buf p) \<le> q - p"
proof (rule ccontr)
  let ?t = "takeWhile (\<lambda>c. c \<noteq> NUL) (drop p buf)"
  assume "\<not> length (c_str buf p) \<le> q - p"
  then have lt: "q - p < length ?t" by (simp add: c_str_def)
  then have "?t ! (q - p) = drop p buf ! (q - p)" by (rule takeWhile_nth)
  then have "?t ! (q - p) = NUL" using assms by simp
  moreover from lt have "?t ! (q - p) \<in> set ?t" by (rule nth_mem)
  ultimately show False by (auto dest: set_takeWhileD)
qed

lemma cli_inv_initial:
  "0 < CLI_COMMAND_LENGTH cfg \<Longrightarrow> cli_inv cfg (initial_state cfg)"
  by (simp add: cli_inv_def initial_state_def zero_filled_def)

text \<open>While input is accepted the buffer is not full.\<close>

lemma cli_inv_not_full:
  assumes "cli_inv cfg s" and "\<not> IS_STATUS s CLI_STATUS_BUSY"
  shows "unat (CmdBufIdxIn s) < CLI_COMMAND_LENGTH cfg"
  using assms unfolding cli_inv_def by (cases "unat (CmdBufIdxIn s) = CLI_COMMAND_LENGTH cfg") auto

lemma BufferInput_inv:
  assumes N: "CLI_COMMAND_LENGTH cfg \<le> 65535"
    and inv: "cli_inv cfg s"
    and nb: "\<not> IS_STATUS s CLI_STATUS_BUSY"
    and step: "BufferInput cfg s pInput = Some (r, s1)"
  shows "length (CommandBuffer s1) = CLI_COMMAND_LENGTH cfg"
    and "unat (CmdBufIdxIn s) \<le> unat (CmdBufIdxIn s1)"
    and "unat (CmdBufIdxIn s1) \<le> CLI_COMMAND_LENGTH cfg"
    and "zero_filled cfg s1"
    and "r = CLI_RESULT_OK \<longrightarrow> unat (CmdBufIdxIn s1) < CLI_COMMAND_LENGTH cfg"
    and "r \<noteq> CLI_RESULT_OK \<longrightarrow> unat (CmdBufIdxIn s1) = CLI_COMMAND_LENGTH cfg"
    and "take (unat (CmdBufIdxIn s)) (CommandBuffer s1) = take (unat (CmdBufIdxIn s)) (CommandBuffer s)"
proof -
  let ?N = "CLI_COMMAND_LENGTH cfg"
  let ?i = "unat (CmdBufIdxIn s)"
  let ?f = "filter IS_CHAR_VALID pInput"
  from inv have len: "length (CommandBuffer s) = ?N" and zf: "zero_filled cfg s"
    by (simp_all add: cli_inv_def)
  from cli_inv_not_full [OF inv nb] have i: "?i < ?N" .
  have all: "length (CommandBuffer s1) = ?N \<and> ?i \<le> unat (CmdBufIdxIn s1) \<and>
      unat (CmdBufIdxIn s1) \<le> ?N \<and> zero_filled cfg s1 \<and>
      (r = CLI_RESULT_OK \<longrightarrow> unat (CmdBufIdxIn s1) < ?N) \<and>
      (r \<noteq> CLI_RESULT_OK \<longrightarrow> unat (CmdBufIdxIn s1) = ?N) \<and>
      take ?i (CommandBuffer s1) = take ?i (CommandBuffer s)"
  proof (cases "?i + length ?f < ?N")
    case True
    from BufferInput_fits [OF len N True] step
    have r: "r = CLI_RESULT_OK"
      and s1: "s1 = s\<lparr>CommandBuffer := take ?i (CommandBuffer s) @ ?f @
                      drop (?i + length ?f) (CommandBuffer s),
                    CmdBufIdxIn := CmdBufIdxIn s + of_nat (length ?f)\<rparr>"
      by simp_all
    have u: "unat (CmdBufIdxIn s1) = ?i + length ?f"
      using True N unfolding s1 by (simp add: unat_plus_of_nat)
    have z: "zero_filled cfg s1"
      unfolding zero_filled_def u
    proof (intro allI impI)
      fix k assume k: "?i + length ?f \<le> k \<and> k < ?N"
      then have k1: "?i + length ?f \<le> k" and k2: "k < ?N" by simp_all
      then have "\<not> k < ?i" "\<not> k - ?i < length ?f" "?i + length ?f + (k - ?i - length ?f) = k"
        by arith+
      then have "CommandBuffer s1 ! k = CommandBuffer s ! k"
        using len i k2 unfolding s1 by (simp add: nth_append)
      moreover have "CommandBuffer s ! k = NUL"
        using zf k unfolding zero_filled_def by simp
      ultimately show "CommandBuffer s1 ! k = NUL" by simp
    qed
    have l: "length (CommandBuffer s1) = ?N"
      using len True unfolding s1 by simp
    have t: "take ?i (CommandBuffer s1) = take ?i (CommandBuffer s)"
      using len i unfolding s1 by simp
    from r u z l t True show ?thesis by simp
  next
    case False
    then have ge: "?N \<le> ?i + length ?f" by simp
    from BufferInput_overflow [OF len N i ge] step
    have r: "r = CLI_RESULT_FAIL"
      and s1: "s1 = s\<lparr>CommandBuffer := take ?i (CommandBuffer s) @ take (?N - ?i) ?f,
                    CmdBufIdxIn := of_nat ?N\<rparr>"
      by simp_all
    have u: "unat (CmdBufIdxIn s1) = ?N"
      using N unfolding s1 by (simp add: unat_of_nat_16)
    have z: "zero_filled cfg s1"
      unfolding zero_filled_def u by auto
    have l: "length (CommandBuffer s1) = ?N"
      using len i ge unfolding s1 by simp
    have t: "take ?i (CommandBuffer s1) = take ?i (CommandBuffer s)"
      using len i unfolding s1 by simp
    from r u z l t i show ?thesis by simp
  qed
  from all show "length (CommandBuffer s1) = ?N" by simp
  from all show "?i \<le> unat (CmdBufIdxIn s1)" by simp
  from all show "unat (CmdBufIdxIn s1) \<le> ?N" by simp
  from all show "zero_filled cfg s1" by simp
  from all show "r = CLI_RESULT_OK \<longrightarrow> unat (CmdBufIdxIn s1) < ?N" by simp
  from all show "r \<noteq> CLI_RESULT_OK \<longrightarrow> unat (CmdBufIdxIn s1) = ?N" by simp
  from all show "take ?i (CommandBuffer s1) = take ?i (CommandBuffer s)" by simp
qed

lemma CLI_Input_inv:
  assumes N: "CLI_COMMAND_LENGTH cfg \<le> 65535"
    and inv: "cli_inv cfg s"
    and step: "CLI_Input cfg cmds s pInput = Some (r, s')"
  shows "cli_inv cfg s'"
proof (cases "IS_STATUS s CLI_STATUS_BUSY \<or> pInput = []")
  case True
  with step have "s' = s" by (auto simp add: CLI_Input_def)
  with inv show ?thesis by simp
next
  case False
  then have nb: "\<not> IS_STATUS s CLI_STATUS_BUSY" and ne: "pInput \<noteq> []" by simp_all
  let ?N = "CLI_COMMAND_LENGTH cfg"
  from inv have oi: "unat (CmdBufIdxOut s) \<le> unat (CmdBufIdxIn s)"
    and stray: "CLI_Status s AND 0xE00 = 0"
    by (simp_all add: cli_inv_def)
  from step nb ne obtain r1 s1 where b: "BufferInput cfg s pInput = Some (r1, s1)"
    by (auto simp add: CLI_Input_def split: Option.bind_splits)
  note B = BufferInput_inv [OF N inv nb b]
  note F = BufferInput_frame [OF b]
  show ?thesis
  proof (cases "r1 = CLI_RESULT_OK")
    case False
    with step nb ne b have s': "s' = SET_STATUS s1 (CLI_STATUS_BUSY OR CLI_STATUS_CMDOVF)"
      by (simp add: CLI_Input_def)
    have st: "CLI_Status s' = CLI_Status s OR 0x120"
      unfolding s' using F by (simp add: SET_STATUS_def flag_values)
    have fields: "CommandBuffer s' = CommandBuffer s1" "CmdBufIdxIn s' = CmdBufIdxIn s1"
      "CmdBufIdxOut s' = CmdBufIdxOut s"
      unfolding s' using F by (simp_all add: SET_STATUS_def)
    have z: "zero_filled cfg s'"
      using B(4) unfolding zero_filled_def fields .
    show ?thesis
      unfolding cli_inv_def flag_bits no_stray_error_bits fields st
      using B(1,2,3) oi stray z unfolding no_stray_error_bits
      by (simp add: bit_simps)
  next
    case True
    with B have in1: "unat (CmdBufIdxIn s1) < ?N" by simp
    from step nb ne b True obtain pNL where
      nl: "strstr (CommandBuffer s1) (CLI_STRING_NEWLINE cfg) = Some pNL"
      by (auto simp add: CLI_Input_def split: Option.bind_splits)
    show ?thesis
    proof (cases pNL)
      case None
      with step nb ne b True nl have "s' = s1" by (simp add: CLI_Input_def)
      then show ?thesis
        unfolding cli_inv_def zero_filled_def flag_bits
        using B F in1 oi stray unfolding zero_filled_def by simp
    next
      case (Some k)
      let ?c = "s1\<lparr>CommandBuffer := (CommandBuffer s1)[k := NUL]\<rparr>"
      from step nb ne b True nl Some obtain p s2 where
        inv2: "InvokeCommand cfg cmds ?c = Some (p, s2)"
        and s': "s' = SET_STATUS (s2\<lparr>pResponse := p\<rparr>) (CLI_STATUS_BUSY OR CLI_STATUS_BREAK)"
        by (auto simp add: CLI_Input_def split: Option.bind_splits)
      note I = InvokeCommand_frame [OF inv2]
      have st: "CLI_Status s' = CLI_Status s OR 0x30"
        unfolding s' using F I(3) by (simp add: SET_STATUS_def flag_values)
      have fields: "CommandBuffer s' = CommandBuffer s2" "CmdBufIdxIn s' = CmdBufIdxIn s1"
        "CmdBufIdxOut s' = CmdBufIdxOut s"
        unfolding s' using F I(1,2) by (simp_all add: SET_STATUS_def)
      have l: "length (CommandBuffer s2) = ?N"
        using I(4) B(1) by simp
      have z: "zero_filled cfg s'"
        unfolding zero_filled_def fields
      proof (intro allI impI)
        fix i assume i: "unat (CmdBufIdxIn s1) \<le> i \<and> i < ?N"
        with B(4) have "CommandBuffer s1 ! i = NUL" by (simp add: zero_filled_def)
        then have "(CommandBuffer s1)[k := NUL] ! i = NUL"
          using i B(1) by (cases "i = k") simp_all
        with I(5) [of i] show "CommandBuffer s2 ! i = NUL" by auto
      qed
      show ?thesis
        unfolding cli_inv_def flag_bits no_stray_error_bits fields st
        using B(2,3) in1 l oi stray z unfolding no_stray_error_bits
        by (simp add: bit_simps)
    qed
  qed
qed

text \<open>
  In the ECHO branch the buffer is not full, so the byte at the write index is zero:
  the string at the read cursor ends at or before the write index.
\<close>

lemma echo_fragment_bound:
  assumes inv: "cli_inv cfg s"
    and ne: "\<not> IS_ANY_STATUS s CLI_STATUS_ERROR_MASK"
    and echo: "IS_STATUS s CLI_STATUS_ECHO"
  shows "unat (CmdBufIdxIn s) < CLI_COMMAND_LENGTH cfg"
    and "terminated (CommandBuffer s) (unat (CmdBufIdxOut s))"
    and "unat (CmdBufIdxOut s) + length (c_str (CommandBuffer s) (unat (CmdBufIdxOut s)))
           \<le> unat (CmdBufIdxIn s)"
proof -
  let ?N = "CLI_COMMAND_LENGTH cfg"
  let ?i = "unat (CmdBufIdxIn s)"
  let ?o = "unat (CmdBufIdxOut s)"
  from inv have len: "length (CommandBuffer s) = ?N" and oi: "?o \<le> ?i" and iN: "?i \<le> ?N"
    and zf: "zero_filled cfg s"
    and full: "?i = ?N \<longrightarrow> IS_STATUS s CLI_STATUS_BUSY \<and>
        (IS_STATUS s CLI_STATUS_CMDOVF \<or> \<not> IS_STATUS s CLI_STATUS_ECHO)"
    by (simp_all add: cli_inv_def)
  from ne have "\<not> IS_STATUS s CLI_STATUS_CMDOVF" unfolding flag_bits by simp
  with full echo have "?i \<noteq> ?N" by auto
  with iN show i: "?i < ?N" by simp
  with zf have z: "CommandBuffer s ! ?i = NUL" by (simp add: zero_filled_def)
  from oi i z len show "terminated (CommandBuffer s) ?o"
    by (intro terminatedI [of ?o ?i]) simp_all
  from oi i z len have "length (c_str (CommandBuffer s) ?o) \<le> ?i - ?o"
    by (intro c_str_length_le) simp_all
  with oi show "?o + length (c_str (CommandBuffer s) ?o) \<le> ?i" by simp
qed

lemma CLI_Output_inv:
  assumes N: "0 < CLI_COMMAND_LENGTH cfg" "CLI_COMMAND_LENGTH cfg \<le> 65535"
    and inv: "cli_inv cfg s"
    and step: "CLI_Output cfg s = Some (p, s')"
  shows "cli_inv cfg s'"
proof -
  let ?N = "CLI_COMMAND_LENGTH cfg"
  from inv have len: "length (CommandBuffer s) = ?N"
    and oi: "unat (CmdBufIdxOut s) \<le> unat (CmdBufIdxIn s)"
    and iN: "unat (CmdBufIdxIn s) \<le> ?N"
    and zf: "zero_filled cfg s"
    and stray: "\<not> bit (CLI_Status s) 9 \<and> \<not> bit (CLI_Status s) 10 \<and> \<not> bit (CLI_Status s) 11"
    and full: "unat (CmdBufIdxIn s) = ?N \<longrightarrow> bit (CLI_Status s) 5 \<and>
        (bit (CLI_Status s) 8 \<or> \<not> bit (CLI_Status s) 0)"
    by (simp_all add: cli_inv_def no_stray_error_bits flag_bits)
  consider (err) "IS_ANY_STATUS s CLI_STATUS_ERROR_MASK"
    | (echo) "\<not> IS_ANY_STATUS s CLI_STATUS_ERROR_MASK" "IS_STATUS s CLI_STATUS_ECHO"
    | (newline) "\<not> IS_ANY_STATUS s CLI_STATUS_ERROR_MASK" "\<not> IS_STATUS s CLI_STATUS_ECHO"
        "IS_STATUS s CLI_STATUS_NEWLINE"
    | (response) "\<not> IS_ANY_STATUS s CLI_STATUS_ERROR_MASK" "\<not> IS_STATUS s CLI_STATUS_ECHO"
        "\<not> IS_STATUS s CLI_STATUS_NEWLINE" "IS_STATUS s CLI_STATUS_RESPONSE"
    | (prompt) "\<not> IS_ANY_STATUS s CLI_STATUS_ERROR_MASK" "\<not> IS_STATUS s CLI_STATUS_ECHO"
        "\<not> IS_STATUS s CLI_STATUS_NEWLINE" "\<not> IS_STATUS s CLI_STATUS_RESPONSE"
        "IS_STATUS s CLI_STATUS_PROMPT"
    | (other) "\<not> IS_ANY_STATUS s CLI_STATUS_ERROR_MASK" "\<not> IS_STATUS s CLI_STATUS_ECHO"
        "\<not> IS_STATUS s CLI_STATUS_NEWLINE" "\<not> IS_STATUS s CLI_STATUS_RESPONSE"
        "\<not> IS_STATUS s CLI_STATUS_PROMPT"
    by blast
  then show ?thesis
  proof cases
    case err
    with step have s': "s' = UPDATE_STATUS (s\<lparr>pResponse := ErrorMessage_CmdOvf\<rparr>)
                  (CLI_STATUS_RESPONSE OR CLI_STATUS_NEWLINE)
                  (CLI_STATUS_CMDOVF OR CLI_STATUS_ECHO)"
      by (simp add: CLI_Output_def split: if_splits)
    have st: "CLI_Status s' = (CLI_Status s AND NOT 0x101) OR 0xA"
      unfolding s' by (simp add: UPDATE_STATUS_def flag_values)
    have fields: "CommandBuffer s' = CommandBuffer s" "CmdBufIdxIn s' = CmdBufIdxIn s"
      "CmdBufIdxOut s' = CmdBufIdxOut s"
      unfolding s' by (simp_all add: UPDATE_STATUS_def)
    have z: "zero_filled cfg s'" using zf unfolding zero_filled_def fields .
    show ?thesis
      unfolding cli_inv_def flag_bits no_stray_error_bits fields st
      using len oi iN z stray full by (simp add: bit_simps)
  next
    case echo
    note E = echo_fragment_bound [OF inv echo]
    show ?thesis
    proof (cases "CmdBufIdxOut s < CmdBufIdxIn s")
      case False
      with step echo have "s' = s" by (simp add: CLI_Output_def)
      with inv show ?thesis by simp
    next
      case True
      let ?n = "length (c_str (CommandBuffer s) (unat (CmdBufIdxOut s)))"
      let ?s1 = "s\<lparr>CmdBufIdxOut := CmdBufIdxOut s + of_nat ?n\<rparr>"
      from step echo True E(2) have s': "s' =
         (if IS_STATUS ?s1 CLI_STATUS_BREAK
          then UPDATE_STATUS ?s1
                 ((if 0 < (of_nat ?n :: 16 word) then CLI_STATUS_RESPONSE else CLI_STATUS_PROMPT)
                  OR CLI_STATUS_NEWLINE)
                 (CLI_STATUS_ECHO OR CLI_STATUS_BREAK)
          else ?s1)"
        by (simp add: CLI_Output_def strlen_Some Let_def)
      have fields: "CommandBuffer s' = CommandBuffer s" "CmdBufIdxIn s' = CmdBufIdxIn s"
        "CmdBufIdxOut s' = CmdBufIdxOut s + of_nat ?n"
        unfolding s' by (simp_all add: UPDATE_STATUS_def)
      have u: "unat (CmdBufIdxOut s + of_nat ?n) = unat (CmdBufIdxOut s) + ?n"
        using E(1,3) N(2) by (intro unat_plus_of_nat) simp
      have st: "CLI_Status s' = CLI_Status s \<or>
          CLI_Status s' = (CLI_Status s AND NOT 0x11) OR 0xA \<or>
          CLI_Status s' = (CLI_Status s AND NOT 0x11) OR 0x6"
        unfolding s' by (simp add: UPDATE_STATUS_def flag_values)
      have z: "zero_filled cfg s'" using zf unfolding zero_filled_def fields .
      from st show ?thesis
        unfolding cli_inv_def flag_bits no_stray_error_bits fields u
        using len E(1,3) z stray by (auto simp add: bit_simps)
    qed
  next
    case newline
    with step have s': "s' = CLEAR_STATUS s CLI_STATUS_NEWLINE"
      by (simp add: CLI_Output_def)
    have st: "CLI_Status s' = CLI_Status s AND NOT 0x2"
      unfolding s' by (simp add: CLEAR_STATUS_def flag_values)
    have fields: "CommandBuffer s' = CommandBuffer s" "CmdBufIdxIn s' = CmdBufIdxIn s"
      "CmdBufIdxOut s' = CmdBufIdxOut s"
      unfolding s' by (simp_all add: CLEAR_STATUS_def)
    have z: "zero_filled cfg s'" using zf unfolding zero_filled_def fields .
    show ?thesis
      unfolding cli_inv_def flag_bits no_stray_error_bits fields st
      using len oi iN z stray full by (simp add: bit_simps)
  next
    case response
    with step have s': "s' = UPDATE_STATUS s (CLI_STATUS_NEWLINE OR CLI_STATUS_PROMPT)
        CLI_STATUS_RESPONSE"
      by (simp add: CLI_Output_def)
    have st: "CLI_Status s' = (CLI_Status s AND NOT 0x8) OR 0x6"
      unfolding s' by (simp add: UPDATE_STATUS_def flag_values)
    have fields: "CommandBuffer s' = CommandBuffer s" "CmdBufIdxIn s' = CmdBufIdxIn s"
      "CmdBufIdxOut s' = CmdBufIdxOut s"
      unfolding s' by (simp_all add: UPDATE_STATUS_def)
    have z: "zero_filled cfg s'" using zf unfolding zero_filled_def fields .
    show ?thesis
      unfolding cli_inv_def flag_bits no_stray_error_bits fields st
      using len oi iN z stray full by (simp add: bit_simps)
  next
    case prompt
    with step have s': "s' = UPDATE_STATUS (ResetBuffer cfg s) CLI_STATUS_ECHO
                (CLI_STATUS_PROMPT OR CLI_STATUS_BUSY)"
      by (simp add: CLI_Output_def)
    have st: "CLI_Status s' = (CLI_Status s AND NOT 0x24) OR 0x1"
      unfolding s' by (simp add: UPDATE_STATUS_def ResetBuffer_def flag_values)
    have fields: "CommandBuffer s' = replicate ?N NUL" "CmdBufIdxIn s' = 0"
      "CmdBufIdxOut s' = 0"
      unfolding s' by (simp_all add: UPDATE_STATUS_def ResetBuffer_def)
    have z: "zero_filled cfg s'" unfolding zero_filled_def fields by simp
    show ?thesis
      unfolding cli_inv_def flag_bits no_stray_error_bits fields st
      using N(1) z stray by (simp add: bit_simps)
  next
    case other
    with step have s': "s' = SET_STATUS (s\<lparr>pResponse := ErrorMessage_Other\<rparr>)
                (CLI_STATUS_RESPONSE OR CLI_STATUS_NEWLINE OR CLI_STATUS_BUSY)"
      by (simp add: CLI_Output_def)
    have st: "CLI_Status s' = CLI_Status s OR 0x2A"
      unfolding s' by (simp add: SET_STATUS_def flag_values)
    have fields: "CommandBuffer s' = CommandBuffer s" "CmdBufIdxIn s' = CmdBufIdxIn s"
      "CmdBufIdxOut s' = CmdBufIdxOut s"
      unfolding s' by (simp_all add: SET_STATUS_def)
    have z: "zero_filled cfg s'" using zf unfolding zero_filled_def fields .
    from other(2) have "\<not> bit (CLI_Status s) 0" unfolding flag_bits .
    then show ?thesis
      unfolding cli_inv_def flag_bits no_stray_error_bits fields st
      using len oi iN z stray full by (simp add: bit_simps)
  qed
qed

lemma run_inv:
  assumes "0 < CLI_COMMAND_LENGTH cfg" "CLI_COMMAND_LENGTH cfg \<le> 65535"
  shows "cli_inv cfg s \<Longrightarrow> run cfg cmds s ops = Some s' \<Longrightarrow> cli_inv cfg s'"
proof (induction ops arbitrary: s)
  case Nil
  then show ?case by simp
next
  case (Cons op ops)
  show ?case
  proof (cases op)
    case (Input pInput)
    with Cons.prems(2) obtain r t where
      t: "CLI_Input cfg cmds s pInput = Some (r, t)" "run cfg cmds t ops = Some s'"
      by (auto split: option.splits)
    from CLI_Input_inv [OF assms(2) Cons.prems(1) t(1)] t(2) show ?thesis
      by (rule Cons.IH)
  next
    case Output
    with Cons.prems(2) obtain p t where
      t: "CLI_Output cfg s = Some (p, t)" "run cfg cmds t ops = Some s'"
      by (auto split: option.splits)
    from CLI_Output_inv [OF assms Cons.prems(1) t(1)] t(2) show ?thesis
      by (rule Cons.IH)
  qed
qed

lemma reachable_inv:
  assumes "0 < CLI_COMMAND_LENGTH cfg" "CLI_COMMAND_LENGTH cfg \<le> 65535"
    and "run cfg cmds (initial_state cfg) ops = Some s"
  shows "cli_inv cfg s"
  using run_inv [OF assms(1,2) cli_inv_initial [OF assms(1)] assms(3)] .

subsection \<open>The cursors\<close>

text \<open>
  Claim C8. After any sequence of \<open>CLI_Input\<close> and \<open>CLI_Output\<close> calls from the initial
  state (every static variable zero), the read index is at most the write index and
  the write index is at most \<open>CLI_COMMAND_LENGTH\<close>. The configuration is any one whose
  buffer size is positive and within the range of the 16-bit indices; the command
  table is arbitrary.
\<close>

theorem cursor_invariant:
  assumes "0 < CLI_COMMAND_LENGTH cfg" and "CLI_COMMAND_LENGTH cfg \<le> 65535"
    and "run cfg cmds (initial_state cfg) ops = Some s"
  shows "0 \<le> unat (CmdBufIdxOut s) \<and> unat (CmdBufIdxOut s) \<le> unat (CmdBufIdxIn s) \<and>
         unat (CmdBufIdxIn s) \<le> CLI_COMMAND_LENGTH cfg"
  using reachable_inv [OF assms] by (simp add: cli_inv_def)

theorem cursor_invariant_witness:
  "run example_config CommandSet (initial_state example_config) example_ops = Some example_typing \<and>
   unat (CmdBufIdxOut example_typing) \<le> unat (CmdBufIdxIn example_typing) \<and>
   unat (CmdBufIdxIn example_typing) \<le> 16"
proof -
  have 1: "0 < CLI_COMMAND_LENGTH example_config" by (simp add: example_config_def)
  have 2: "CLI_COMMAND_LENGTH example_config \<le> 65535" by (simp add: example_config_def)
  have 3: "run example_config CommandSet (initial_state example_config) example_ops
      = Some example_typing"
    by code_simp
  from cursor_invariant [OF 1 2 3] 3 show ?thesis by (simp add: example_config_def)
qed

subsection \<open>The zero-filled tail\<close>

text \<open>
  Claim C10. After any sequence of \<open>CLI_Input\<close> and \<open>CLI_Output\<close> calls from the initial
  state, every byte of the command buffer from the write index to the end of the array
  is zero. Hence, in such a state, the terminator scan of \<open>CLI_Input\<close> after a successful
  \<open>BufferInput\<close> finds a zero byte inside the array (\<open>strstr\<close> has a defined result), and
  in the ECHO branch of \<open>CLI_Output\<close> with the read cursor behind the write cursor
  \<open>strlen\<close> has a defined result \<open>n\<close>, and the fragment of \<open>n\<close> bytes at the read cursor
  ends at or before the write index: it lies within the appended bytes.
\<close>

theorem zero_fill_invariant:
  assumes "0 < CLI_COMMAND_LENGTH cfg" and "CLI_COMMAND_LENGTH cfg \<le> 65535"
    and "run cfg cmds (initial_state cfg) ops = Some s"
  shows "zero_filled cfg s \<and>
         (\<forall>pInput s1. \<not> IS_STATUS s CLI_STATUS_BUSY \<and>
              BufferInput cfg s pInput = Some (CLI_RESULT_OK, s1) \<longrightarrow>
              (\<exists>pNL. strstr (CommandBuffer s1) (CLI_STRING_NEWLINE cfg) = Some pNL)) \<and>
         (\<not> IS_ANY_STATUS s CLI_STATUS_ERROR_MASK \<and> IS_STATUS s CLI_STATUS_ECHO \<and>
          CmdBufIdxOut s < CmdBufIdxIn s \<longrightarrow>
            (\<exists>n. strlen (CommandBuffer s) (unat (CmdBufIdxOut s)) = Some n \<and>
                 unat (CmdBufIdxOut s) + n \<le> unat (CmdBufIdxIn s)))"
proof (intro conjI allI impI)
  from reachable_inv [OF assms] have inv: "cli_inv cfg s" .
  then show "zero_filled cfg s" by (simp add: cli_inv_def)
  {
    fix pInput s1
    assume h: "\<not> IS_STATUS s CLI_STATUS_BUSY \<and>
      BufferInput cfg s pInput = Some (CLI_RESULT_OK, s1)"
    then have nb: "\<not> IS_STATUS s CLI_STATUS_BUSY"
      and b: "BufferInput cfg s pInput = Some (CLI_RESULT_OK, s1)" by simp_all
    note B = BufferInput_inv [OF assms(2) inv nb b]
    from B(5) have i: "unat (CmdBufIdxIn s1) < CLI_COMMAND_LENGTH cfg" by simp
    with B(4) have "CommandBuffer s1 ! unat (CmdBufIdxIn s1) = NUL"
      by (simp add: zero_filled_def)
    with i B(1) have "terminated (CommandBuffer s1) 0"
      by (intro terminatedI [of 0 "unat (CmdBufIdxIn s1)"]) simp_all
    then show "\<exists>pNL. strstr (CommandBuffer s1) (CLI_STRING_NEWLINE cfg) = Some pNL"
      by (simp add: strstr_def)
  }
  {
    assume h: "\<not> IS_ANY_STATUS s CLI_STATUS_ERROR_MASK \<and> IS_STATUS s CLI_STATUS_ECHO \<and>
          CmdBufIdxOut s < CmdBufIdxIn s"
    then have "\<not> IS_ANY_STATUS s CLI_STATUS_ERROR_MASK" "IS_STATUS s CLI_STATUS_ECHO"
      by simp_all
    note E = echo_fragment_bound [OF inv this]
    from E(2,3) show "\<exists>n. strlen (CommandBuffer s) (unat (CmdBufIdxOut s)) = Some n \<and>
                 unat (CmdBufIdxOut s) + n \<le> unat (CmdBufIdxIn s)"
      by (simp add: strlen_Some)
  }
qed

theorem zero_fill_invariant_witness:
  "zero_filled example_config example_typing \<and>
   (\<exists>pNL. strstr (''GET_L'' @ replicate 11 NUL) (CLI_STRING_NEWLINE example_config) = Some pNL) \<and>
   (\<exists>n. strlen (CommandBuffer example_typing) 2 = Some n \<and> 2 + n \<le> 3)"
proof -
  have 1: "0 < CLI_COMMAND_LENGTH example_config" by (simp add: example_config_def)
  have 2: "CLI_COMMAND_LENGTH example_config \<le> 65535" by (simp add: example_config_def)
  have 3: "run example_config CommandSet (initial_state example_config) example_ops
      = Some example_typing"
    by code_simp
  note T = zero_fill_invariant [OF 1 2 3]
  have 4: "\<not> IS_STATUS example_typing CLI_STATUS_BUSY \<and>
      BufferInput example_config example_typing ''_L'' =
        Some (CLI_RESULT_OK,
              example_typing\<lparr>CommandBuffer := ''GET_L'' @ replicate 11 NUL, CmdBufIdxIn := 5\<rparr>)"
    by code_simp
  have 5: "\<not> IS_ANY_STATUS example_typing CLI_STATUS_ERROR_MASK \<and>
      IS_STATUS example_typing CLI_STATUS_ECHO \<and>
      CmdBufIdxOut example_typing < CmdBufIdxIn example_typing"
    by code_simp
  have 6: "unat (CmdBufIdxOut example_typing) = 2" "unat (CmdBufIdxIn example_typing) = 3"
    by (simp_all add: example_typing_def)
  from T have a: "zero_filled example_config example_typing" by (rule conjunct1)
  from T have "\<forall>pInput s1. \<not> IS_STATUS example_typing CLI_STATUS_BUSY \<and>
              BufferInput example_config example_typing pInput = Some (CLI_RESULT_OK, s1) \<longrightarrow>
              (\<exists>pNL. strstr (CommandBuffer s1) (CLI_STRING_NEWLINE example_config) = Some pNL)"
    by (rule conjunct1 [OF conjunct2])
  from this [rule_format, OF 4]
  have b: "\<exists>pNL. strstr (''GET_L'' @ replicate 11 NUL) (CLI_STRING_NEWLINE example_config) = Some pNL"
    by simp
  from T have "\<not> IS_ANY_STATUS example_typing CLI_STATUS_ERROR_MASK \<and>
          IS_STATUS example_typing CLI_STATUS_ECHO \<and>
          CmdBufIdxOut example_typing < CmdBufIdxIn example_typing \<longrightarrow>
            (\<exists>n. strlen (CommandBuffer example_typing) (unat (CmdBufIdxOut example_typing)) = Some n \<and>
                 unat (CmdBufIdxOut example_typing) + n \<le> unat (CmdBufIdxIn example_typing))"
    by (rule conjunct2 [OF conjunct2])
  from this [rule_format, OF 5]
  have c: "\<exists>n. strlen (CommandBuffer example_typing) 2 = Some n \<and> 2 + n \<le> 3"
    unfolding 6 .
  from a b c show ?thesis by (intro conjI)
qed

subsection \<open>The dispatcher reads and writes only up to the terminator\<close>

lemma terminated_append: "terminated x p \<Longrightarrow> terminated (x @ r) p"
  by (auto simp add: terminated_def)

lemma c_str_append: "terminated x p \<Longrightarrow> c_str (x @ r) p = c_str x p"
  by (simp add: terminated_def c_str_def)

lemma strlen_append: "terminated x p \<Longrightarrow> strlen (x @ r) p = strlen x p"
  by (simp add: strlen_def terminated_append c_str_append)

lemma strchr_append: "terminated x p \<Longrightarrow> strchr (x @ r) p ch = strchr x p ch"
  by (simp add: strchr_def terminated_append c_str_append)

lemma terminated_Suc:
  assumes "terminated x p" and "x ! p \<noteq> NUL"
  shows "terminated x (Suc p)"
proof -
  from assms(1) have "p < length x" by (rule terminated_less)
  then have "drop p x = x ! p # drop (Suc p) x" by (simp add: Cons_nth_drop_Suc)
  with assms show ?thesis by (auto simp add: terminated_def)
qed

lemma StrTrim_append:
  "terminated x p \<Longrightarrow>
   \<exists>q. StrTrim x p = Some q \<and> StrTrim (x @ r) p = Some q \<and> p \<le> q \<and> terminated x q"
proof (induction x p rule: StrTrim.induct)
  case (1 buf p)
  from "1.prems" have lt: "p < length buf" by (rule terminated_less)
  show ?case
  proof (cases "buf ! p = CHR '' ''")
    case False
    with lt have "StrTrim buf p = Some p" "StrTrim (buf @ r) p = Some p"
      by (subst StrTrim.simps, simp add: nth_append)+
    with "1.prems" show ?thesis by simp
  next
    case True
    then have "buf ! p \<noteq> NUL" by (simp add: NUL_def)
    with "1.prems" have "terminated buf (Suc p)" by (rule terminated_Suc)
    with "1.IH" lt True obtain q where
      q: "StrTrim buf (Suc p) = Some q" "StrTrim (buf @ r) (Suc p) = Some q" "Suc p \<le> q"
        "terminated buf q"
      by blast
    from lt True q(1) have "StrTrim buf p = Some q"
      by (subst StrTrim.simps) simp
    moreover from lt True q(2) have "StrTrim (buf @ r) p = Some q"
      by (subst StrTrim.simps) (simp add: nth_append)
    ultimately show ?thesis using q(3,4) by simp
  qed
qed

lemma StrTrimR_loop_append:
  "e \<le> length x \<Longrightarrow> StrTrimR_loop (x @ r) p e = StrTrimR_loop x p e @ r"
proof (induction x p e rule: StrTrimR_loop.induct)
  case (1 buf pStr pEnd)
  show ?case
  proof (cases "pStr < pEnd \<and> buf ! (pEnd - 1) = CHR '' ''")
    case False
    with "1.prems" show ?thesis
      by (subst (1 2) StrTrimR_loop.simps) (auto simp add: nth_append)
  next
    case True
    with "1.prems" have i: "pEnd - 1 < length buf" by auto
    from True "1.prems" "1.IH"
    have "StrTrimR_loop (buf[pEnd - 1 := NUL] @ r) pStr (pEnd - 1)
        = StrTrimR_loop (buf[pEnd - 1 := NUL]) pStr (pEnd - 1) @ r"
      by simp
    moreover have "(buf @ r)[pEnd - 1 := NUL] = buf[pEnd - 1 := NUL] @ r"
      using i by (simp add: list_update_append)
    moreover have "(buf @ r) ! (pEnd - 1) = buf ! (pEnd - 1)"
      using i by (simp add: nth_append)
    ultimately show ?thesis
      using True by (subst (1 2) StrTrimR_loop.simps) simp
  qed
qed

lemma terminated_writes:
  assumes "terminated b p" and "length b' = length b"
    and "\<And>i. b' ! i = b ! i \<or> b' ! i = NUL"
  shows "terminated b' p"
proof -
  let ?e = "p + length (c_str b p)"
  from terminated_bound [OF assms(1)] have e: "?e < length b" "b ! ?e = NUL" by simp_all
  with assms(3) [of ?e] have "b' ! ?e = NUL" by auto
  with e(1) assms(2) show ?thesis by (intro terminatedI [of p ?e]) simp_all
qed

lemma strchr_found:
  assumes "strchr x p ch = Some (Some a)" and "ch \<noteq> NUL"
  shows "p \<le> a" and "a < p + length (c_str x p)" and "terminated x p"
proof -
  from assms(1) show t: "terminated x p" by (auto simp add: strchr_def split: if_splits)
  with assms(1) have m: "ch \<in> set (c_str x p)"
    and a: "a = p + length (takeWhile (\<lambda>c. c \<noteq> ch) (c_str x p))"
    by (auto simp add: strchr_def split: if_splits)
  from a show "p \<le> a" by simp
  from m have "length (takeWhile (\<lambda>c. c \<noteq> ch) (c_str x p)) < length (c_str x p)"
    by (rule takeWhile_stops_early) simp
  with a show "a < p + length (c_str x p)" by simp
qed

text \<open>
  On a buffer \<open>x @ r\<close> whose part \<open>x\<close> holds a zero byte, the first part of \<open>InvokeCommand\<close>
  works on \<open>x\<close> alone: \<open>r\<close> is neither read nor written, and the two token pointers
  point to strings that end inside \<open>x\<close>.
\<close>

lemma InvokeCommand_split_append:
  assumes "terminated x 0"
  shows "InvokeCommand_split (x @ r) =
           map_option (\<lambda>(b, t). (b @ r, t)) (InvokeCommand_split x)"
    and "InvokeCommand_split x = Some (b, Some (pCmd, pArg)) \<Longrightarrow>
           terminated b pCmd \<and> (\<forall>a. pArg = Some a \<longrightarrow> terminated b a)"
proof -
  from StrTrim_append [OF assms, of r] obtain q where
    q: "StrTrim x 0 = Some q" "StrTrim (x @ r) 0 = Some q" "terminated x q"
    by blast
  define n where "n = length (c_str x q)"
  define x1 where "x1 = StrTrimR_loop x q (q + n)"
  from terminated_bound(1) [OF q(3)] have qn: "q + n \<le> length x" by (simp add: n_def)
  have len: "strlen x q = Some n" "strlen (x @ r) q = Some n"
    using q(3) by (simp_all add: strlen_append strlen_Some n_def)
  have trimr: "StrTrimR x q = Some x1" "StrTrimR (x @ r) q = Some (x1 @ r)"
    using qn by (simp_all add: StrTrimR_def len x1_def StrTrimR_loop_append)
  from StrTrimR_loop_writes [of x q "q + n"]
  have w: "length x1 = length x" "\<And>i. x1 ! i = x ! i \<or> x1 ! i = NUL"
    by (simp_all add: x1_def)
  from terminated_writes [OF q(3) w] have t1: "terminated x1 q" .
  define n1 where "n1 = length (c_str x1 q)"
  have len1: "strlen x1 q = Some n1" "strlen (x1 @ r) q = Some n1"
    using t1 by (simp_all add: strlen_append strlen_Some n1_def)
  have chr: "strchr (x1 @ r) q (CHR '' '') = strchr x1 q (CHR '' '')"
    using t1 by (rule strchr_append)
  have arg: "StrTrim (x1[a := NUL] @ r) (Suc a) = StrTrim (x1[a := NUL]) (Suc a) \<and>
       (x1 @ r)[a := NUL] = x1[a := NUL] @ r \<and>
       (\<forall>a'. StrTrim (x1[a := NUL]) (Suc a) = Some a' \<longrightarrow> terminated (x1[a := NUL]) a') \<and>
       (\<exists>a'. StrTrim (x1[a := NUL]) (Suc a) = Some a') \<and>
       terminated (x1[a := NUL]) q"
    if a: "strchr x1 q (CHR '' '') = Some (Some a)" for a
  proof -
    have sp: "CHR '' '' \<noteq> NUL" by (simp add: NUL_def)
    from strchr_found [OF a sp] have b: "q \<le> a" "a < q + n1" by (simp_all add: n1_def)
    from terminated_bound [OF t1] have e: "q + n1 < length x1" "x1 ! (q + n1) = NUL"
      by (simp_all add: n1_def)
    from b e have "(x1[a := NUL]) ! (q + n1) = NUL" by simp
    with b e have t: "terminated (x1[a := NUL]) (Suc a)"
      by (intro terminatedI [of "Suc a" "q + n1"]) simp_all
    from StrTrim_append [OF t, of r] obtain a' where
      a': "StrTrim (x1[a := NUL]) (Suc a) = Some a'" "StrTrim (x1[a := NUL] @ r) (Suc a) = Some a'"
        "terminated (x1[a := NUL]) a'"
      by blast
    have u: "(x1 @ r)[a := NUL] = x1[a := NUL] @ r"
      using b e by (simp add: list_update_append)
    have "terminated (x1[a := NUL]) q" using t1 by (rule terminated_update_NUL)
    with a' u show ?thesis by simp
  qed
  show "InvokeCommand_split (x @ r) =
           map_option (\<lambda>(b, t). (b @ r, t)) (InvokeCommand_split x)"
  proof (cases "strchr x1 q (CHR '' '')")
    case None
    then show ?thesis
      by (simp add: InvokeCommand_split_def q trimr len1 chr)
  next
    case (Some pa)
    show ?thesis
    proof (cases pa)
      case None
      with Some show ?thesis
        by (simp add: InvokeCommand_split_def q trimr len1 chr)
    next
      case (Some a)
      with \<open>strchr x1 q (CHR '' '') = Some pa\<close>
      have s: "strchr x1 q (CHR '' '') = Some (Some a)" by simp
      from arg [OF s] obtain a' where "StrTrim (x1[a := NUL]) (Suc a) = Some a'" by blast
      with arg [OF s] s show ?thesis
        by (simp add: InvokeCommand_split_def q trimr len1 chr)
    qed
  qed
  show "terminated b pCmd \<and> (\<forall>a. pArg = Some a \<longrightarrow> terminated b a)"
    if r: "InvokeCommand_split x = Some (b, Some (pCmd, pArg))"
  proof (cases "strchr x1 q (CHR '' '')")
    case None
    with r show ?thesis
      by (simp add: InvokeCommand_split_def q trimr len1 split: if_splits)
  next
    case (Some pa)
    show ?thesis
    proof (cases pa)
      case None
      with Some r t1 show ?thesis
        by (auto simp add: InvokeCommand_split_def q trimr len1 split: if_splits)
    next
      case (Some a)
      with \<open>strchr x1 q (CHR '' '') = Some pa\<close>
      have s: "strchr x1 q (CHR '' '') = Some (Some a)" by simp
      from arg [OF s] obtain a' where a': "StrTrim (x1[a := NUL]) (Suc a) = Some a'" by blast
      with arg [OF s] s r show ?thesis
        by (auto simp add: InvokeCommand_split_def q trimr len1 split: if_splits)
    qed
  qed
qed

lemma InvokeCommand_two_buffers:
  assumes t: "terminated x 0"
    and c1: "CommandBuffer c1 = x @ r1" and c2: "CommandBuffer c2 = x @ r2"
    and rb: "ResponseBuffer c1 = ResponseBuffer c2"
  shows "(InvokeCommand cfg cmds c1 = None \<longleftrightarrow> InvokeCommand cfg cmds c2 = None) \<and>
         (\<forall>p1 d1 p2 d2. InvokeCommand cfg cmds c1 = Some (p1, d1) \<and>
              InvokeCommand cfg cmds c2 = Some (p2, d2) \<longrightarrow>
              ResponseBuffer d1 = ResponseBuffer d2 \<and>
              (\<exists>b. length b = length x \<and> CommandBuffer d1 = b @ r1 \<and> CommandBuffer d2 = b @ r2))"
proof (cases "InvokeCommand_split x")
  case None
  with InvokeCommand_split_append(1) [OF t]
  have "InvokeCommand_split (x @ r1) = None" "InvokeCommand_split (x @ r2) = None" by simp_all
  then show ?thesis by (simp add: InvokeCommand_def c1 c2)
next
  case (Some bt)
  obtain b tok where bt: "bt = (b, tok)" by (cases bt)
  from Some bt have sp: "InvokeCommand_split x = Some (b, tok)" by simp
  with InvokeCommand_split_append(1) [OF t]
  have sp12: "InvokeCommand_split (x @ r1) = Some (b @ r1, tok)"
    "InvokeCommand_split (x @ r2) = Some (b @ r2, tok)" by simp_all
  from InvokeCommand_split_writes(1) [OF sp] have len: "length b = length x" .
  show ?thesis
  proof (cases tok)
    case None
    with sp12 len rb show ?thesis
      by (auto simp add: InvokeCommand_def c1 c2)
  next
    case (Some pp)
    obtain pCmd pArg where pp: "pp = (pCmd, pArg)" by (cases pp)
    from InvokeCommand_split_append(2) [OF t, of b pCmd pArg] sp Some pp
    have tc: "terminated b pCmd" and ta: "\<And>a. pArg = Some a \<Longrightarrow> terminated b a" by simp_all
    have name: "c_str (b @ r1) pCmd = c_str b pCmd" "c_str (b @ r2) pCmd = c_str b pCmd"
      using tc by (simp_all add: c_str_append)
    have arg: "map_option (c_str (b @ r1)) pArg = map_option (c_str b) pArg"
      "map_option (c_str (b @ r2)) pArg = map_option (c_str b) pArg"
      using ta by (cases pArg; simp add: c_str_append)+
    define call where "call = seek_command cmds (c_str b pCmd) (map_option (c_str b) pArg)
        (ResponseBuffer c2)"
    have i1: "InvokeCommand cfg cmds c1 =
        call \<bind> (\<lambda>(result, res).
          (if result = CLI_RESULT_INVALID then ResponseError res ERRNO_ARG_INVALID else Some res)
          \<bind> (\<lambda>res'. if 0 < CLI_RESPONSE_LENGTH cfg \<and> CLI_RESPONSE_LENGTH cfg \<le> length res'
               then Some (ResponseBuffer_ptr,
                      c1\<lparr>CommandBuffer := b @ r1,
                         ResponseBuffer := res'[CLI_RESPONSE_LENGTH cfg - 1 := NUL]\<rparr>)
               else None))"
      by (simp add: InvokeCommand_def c1 sp12 Some pp name arg rb call_def)
    have i2: "InvokeCommand cfg cmds c2 =
        call \<bind> (\<lambda>(result, res).
          (if result = CLI_RESULT_INVALID then ResponseError res ERRNO_ARG_INVALID else Some res)
          \<bind> (\<lambda>res'. if 0 < CLI_RESPONSE_LENGTH cfg \<and> CLI_RESPONSE_LENGTH cfg \<le> length res'
               then Some (ResponseBuffer_ptr,
                      c2\<lparr>CommandBuffer := b @ r2,
                         ResponseBuffer := res'[CLI_RESPONSE_LENGTH cfg - 1 := NUL]\<rparr>)
               else None))"
      by (simp add: InvokeCommand_def c2 sp12 Some pp name arg call_def)
    show ?thesis
      unfolding i1 i2 using len
      by (auto split: Option.bind_splits if_splits)
  qed
qed

subsection \<open>The terminator scan and later bytes\<close>

lemma take_whole_length:
  assumes "take (length n) xs = n"
  shows "length n \<le> length xs"
proof -
  from assms have "length (take (length n) xs) = length n" by simp
  then show ?thesis by (simp add: min_def split: if_splits)
qed

lemma take_append_short: "m \<le> length xs \<Longrightarrow> take m (xs @ ys) = take m xs"
  by simp

lemma find_substring_bound: "find_substring h n = Some k \<Longrightarrow> k + length n \<le> length h"
proof (induction h arbitrary: k)
  case Nil
  then show ?case by (simp split: if_splits)
next
  case (Cons c h)
  show ?case
  proof (cases "take (length n) (c # h) = n")
    case True
    then have "length n \<le> length (c # h)"
      by (rule take_whole_length)
    with True Cons.prems show ?thesis by simp
  next
    case False
    with Cons.prems obtain k' where "find_substring h n = Some k'" "k = Suc k'" by auto
    with Cons.IH show ?thesis by simp
  qed
qed

lemma find_substring_append:
  "find_substring h n = Some k \<Longrightarrow> find_substring (h @ e) n = Some k"
proof (induction h arbitrary: k)
  case Nil
  then show ?case by (cases e) (simp_all split: if_splits)
next
  case (Cons c h)
  show ?case
  proof (cases "take (length n) (c # h) = n")
    case True
    then have "length n \<le> length (c # h)"
      by (rule take_whole_length)
    from take_append_short [OF this, of e] True
    have "take (length n) (c # h @ e) = n" by simp
    with True Cons.prems show ?thesis by simp
  next
    case False
    with Cons.prems obtain k' where k': "find_substring h n = Some k'" "k = Suc k'" by auto
    from find_substring_bound [OF k'(1)] have "length n \<le> length (c # h)" by simp
    from take_append_short [OF this, of e] False
    have "take (length n) (c # h @ e) \<noteq> n" by simp
    with Cons.IH [OF k'(1)] k'(2) show ?thesis by simp
  qed
qed

lemma strstr_extended:
  assumes found: "strstr cb1 nl = Some (Some k)"
    and i: "i < length cb1" and z: "cb1 ! i = NUL"
    and same: "take i cb2 = take i cb1"
    and t2: "terminated cb2 0"
  shows "strstr cb2 nl = Some (Some k)" and "k \<le> i"
proof -
  let ?nz = "\<lambda>c. c \<noteq> NUL"
  let ?X = "take i cb1"
  have cb1: "cb1 = ?X @ NUL # drop (Suc i) cb1"
    using id_take_nth_drop [OF i] unfolding z .
  have cb2: "cb2 = ?X @ drop i cb2" using same by (metis append_take_drop_id)
  have "takeWhile ?nz cb1 = takeWhile ?nz (?X @ NUL # drop (Suc i) cb1)" using cb1 by simp
  also have "\<dots> = takeWhile ?nz ?X" by (rule takeWhile_tail) simp
  finally have h1': "takeWhile ?nz cb1 = takeWhile ?nz ?X" .
  then have h1: "c_str cb1 0 = takeWhile ?nz ?X" by (simp add: c_str_def)
  have "takeWhile ?nz cb2 = takeWhile ?nz (?X @ drop i cb2)" using cb2 by simp
  then have "\<exists>e. takeWhile ?nz cb2 = takeWhile ?nz ?X @ e"
  proof (cases "\<forall>x\<in>set ?X. x \<noteq> NUL")
    case True
    then have a: "takeWhile ?nz ?X = ?X" by simp
    from True have b: "takeWhile ?nz (?X @ drop i cb2) = ?X @ takeWhile ?nz (drop i cb2)"
      by (simp add: takeWhile_append)
    have "takeWhile ?nz cb2 = takeWhile ?nz ?X @ takeWhile ?nz (drop i cb2)"
      unfolding a using \<open>takeWhile ?nz cb2 = takeWhile ?nz (?X @ drop i cb2)\<close> b
      by (rule trans)
    then show ?thesis by (rule exI)
  next
    case False
    then have "takeWhile ?nz (?X @ drop i cb2) = takeWhile ?nz ?X"
      by (auto simp add: takeWhile_append)
    then show ?thesis
      using \<open>takeWhile ?nz cb2 = takeWhile ?nz (?X @ drop i cb2)\<close> by simp
  qed
  then obtain e where "takeWhile ?nz cb2 = takeWhile ?nz ?X @ e" ..
  then have h2: "c_str cb2 0 = c_str cb1 0 @ e" by (simp add: c_str_def h1')
  from found have f: "find_substring (c_str cb1 0) nl = Some k"
    by (auto simp add: strstr_def split: if_splits)
  from find_substring_append [OF this, of e] t2 show "strstr cb2 nl = Some (Some k)"
    by (simp add: strstr_def h2)
  from find_substring_le [OF f] have "k \<le> length (takeWhile ?nz ?X)" by (simp add: h1)
  also have "\<dots> \<le> length ?X" by (rule length_takeWhile_le)
  finally show "k \<le> i" using i by simp
qed

subsection \<open>The relation between two deliveries\<close>

lemma same_dispatch_refl: "same_dispatch a a"
  by (simp add: same_dispatch_def)

lemma same_dispatch_trans:
  assumes "same_dispatch a b" and "same_dispatch b c"
  shows "same_dispatch a c"
proof -
  let ?i = "unat (CmdBufIdxIn a)"
  let ?j = "unat (CmdBufIdxIn b)"
  from assms have ij: "?i \<le> ?j"
    and ab: "take ?i (CommandBuffer a) = take ?i (CommandBuffer b)"
    and bc: "take ?j (CommandBuffer b) = take ?j (CommandBuffer c)"
    by (simp_all add: same_dispatch_def)
  from ij have "take ?i (CommandBuffer b) = take ?i (take ?j (CommandBuffer b))"
    by (simp add: min_def)
  also have "\<dots> = take ?i (take ?j (CommandBuffer c))" using bc by simp
  also have "\<dots> = take ?i (CommandBuffer c)" using ij by (simp add: min_def)
  finally show ?thesis using assms ab by (simp add: same_dispatch_def)
qed

lemma rel_same_dispatch_refl: "rel_option same_dispatch x x"
  by (cases x) (simp_all add: same_dispatch_refl)

lemma rel_same_dispatch_trans:
  "rel_option same_dispatch x y \<Longrightarrow> rel_option same_dispatch y z \<Longrightarrow>
   rel_option same_dispatch x z"
  by (cases x; cases y; cases z) (auto intro: same_dispatch_trans)

text \<open>
  Two states that agree up to the write index of the first, dispatched at the same
  terminator position.
\<close>

lemma dispatch_two_buffers:
  assumes k: "k \<le> unat (CmdBufIdxIn s1)"
    and i1: "unat (CmdBufIdxIn s1) < length (CommandBuffer s1)"
    and i2: "unat (CmdBufIdxIn s1) < length (CommandBuffer s2)"
    and le: "unat (CmdBufIdxIn s1) \<le> unat (CmdBufIdxIn s2)"
    and tk: "take (unat (CmdBufIdxIn s1)) (CommandBuffer s2)
               = take (unat (CmdBufIdxIn s1)) (CommandBuffer s1)"
    and rb: "ResponseBuffer s1 = ResponseBuffer s2"
    and st: "CLI_Status s1 = CLI_Status s2"
    and out: "CmdBufIdxOut s1 = CmdBufIdxOut s2"
  shows "rel_option same_dispatch
           (map_option snd
             (InvokeCommand cfg cmds (s1\<lparr>CommandBuffer := (CommandBuffer s1)[k := NUL]\<rparr>) \<bind>
               (\<lambda>(p, d). Some (USBD_OK,
                  SET_STATUS (d\<lparr>pResponse := p\<rparr>) (CLI_STATUS_BUSY OR CLI_STATUS_BREAK)))))
           (map_option snd
             (InvokeCommand cfg cmds (s2\<lparr>CommandBuffer := (CommandBuffer s2)[k := NUL]\<rparr>) \<bind>
               (\<lambda>(p, d). Some (USBD_OK,
                  SET_STATUS (d\<lparr>pResponse := p\<rparr>) (CLI_STATUS_BUSY OR CLI_STATUS_BREAK)))))"
proof -
  let ?i = "unat (CmdBufIdxIn s1)"
  define x where "x = take k (CommandBuffer s1) @ [NUL]"
  define r1 where "r1 = drop (Suc k) (CommandBuffer s1)"
  define r2 where "r2 = drop (Suc k) (CommandBuffer s2)"
  define c1 where "c1 = s1\<lparr>CommandBuffer := (CommandBuffer s1)[k := NUL]\<rparr>"
  define c2 where "c2 = s2\<lparr>CommandBuffer := (CommandBuffer s2)[k := NUL]\<rparr>"
  have "take k (CommandBuffer s2) = take k (take ?i (CommandBuffer s2))"
    using k by (simp add: min_def)
  also have "\<dots> = take k (take ?i (CommandBuffer s1))" using tk by simp
  also have "\<dots> = take k (CommandBuffer s1)" using k by (simp add: min_def)
  finally have tk2: "take k (CommandBuffer s2) = take k (CommandBuffer s1)" .
  have cb1: "CommandBuffer c1 = x @ r1"
    using k i1 by (simp add: c1_def x_def r1_def upd_conv_take_nth_drop)
  have cb2: "CommandBuffer c2 = x @ r2"
    using k i2 tk2 by (simp add: c2_def x_def r2_def upd_conv_take_nth_drop)
  have t: "terminated x 0" by (simp add: x_def terminated_def)
  have rbc: "ResponseBuffer c1 = ResponseBuffer c2" using rb by (simp add: c1_def c2_def)
  note T = InvokeCommand_two_buffers [OF t cb1 cb2 rbc, of cfg cmds]
  show ?thesis
  proof (cases "InvokeCommand cfg cmds c1")
    case None
    with T have "InvokeCommand cfg cmds c2 = None" by simp
    with None show ?thesis by (simp add: c1_def c2_def)
  next
    case (Some pd1)
    obtain p1 d1 where pd1: "pd1 = (p1, d1)" by (cases pd1)
    from Some T obtain pd2 where s2: "InvokeCommand cfg cmds c2 = Some pd2" by auto
    obtain p2 d2 where pd2: "pd2 = (p2, d2)" by (cases pd2)
    from Some pd1 have r1: "InvokeCommand cfg cmds c1 = Some (p1, d1)" by simp
    from s2 pd2 have r2: "InvokeCommand cfg cmds c2 = Some (p2, d2)" by simp
    note F1 = InvokeCommand_frame [OF r1]
    note F2 = InvokeCommand_frame [OF r2]
    from T r1 r2 obtain b where
      res: "ResponseBuffer d1 = ResponseBuffer d2"
      and b: "length b = length x" "CommandBuffer d1 = b @ r1" "CommandBuffer d2 = b @ r2"
      by blast
    have lb: "length b = Suc k" using b(1) k i1 by (simp add: x_def)
    have "take (?i - Suc k) r1 = drop (Suc k) (take ?i (CommandBuffer s1))"
      by (simp add: r1_def drop_take)
    also have "\<dots> = drop (Suc k) (take ?i (CommandBuffer s2))" using tk by simp
    also have "\<dots> = take (?i - Suc k) r2" by (simp add: r2_def drop_take)
    finally have "take ?i (b @ r1) = take ?i (b @ r2)" by (simp add: lb)
    then have "same_dispatch
        (SET_STATUS (d1\<lparr>pResponse := p1\<rparr>) (CLI_STATUS_BUSY OR CLI_STATUS_BREAK))
        (SET_STATUS (d2\<lparr>pResponse := p2\<rparr>) (CLI_STATUS_BUSY OR CLI_STATUS_BREAK))"
      using res b F1(1,2,3,6) F2(1,2,3,6) le st out
      by (simp add: same_dispatch_def SET_STATUS_def c1_def c2_def)
    then show ?thesis
      using r1 r2 by (simp add: c1_def c2_def)
  qed
qed

lemma BufferInput_cli_inv:
  assumes N: "CLI_COMMAND_LENGTH cfg \<le> 65535"
    and inv: "cli_inv cfg s"
    and nb: "\<not> IS_STATUS s CLI_STATUS_BUSY"
    and step: "BufferInput cfg s pInput = Some (CLI_RESULT_OK, s1)"
  shows "cli_inv cfg s1" and "\<not> IS_STATUS s1 CLI_STATUS_BUSY"
proof -
  note B = BufferInput_inv [OF N inv nb step]
  note F = BufferInput_frame [OF step]
  from inv have "unat (CmdBufIdxOut s) \<le> unat (CmdBufIdxIn s)" "CLI_Status s AND 0xE00 = 0"
    by (simp_all add: cli_inv_def)
  with B F show "cli_inv cfg s1" by (simp add: cli_inv_def)
  from nb F show "\<not> IS_STATUS s1 CLI_STATUS_BUSY" by (simp add: IS_STATUS_def)
qed

lemma feed_single:
  "feed cfg cmds s [x] = map_option snd (CLI_Input cfg cmds s x)"
  by (simp split: option.splits prod.splits)

lemma feed_two_chunks:
  assumes N: "CLI_COMMAND_LENGTH cfg \<le> 65535"
    and inv: "cli_inv cfg s"
    and cap: "unat (CmdBufIdxIn s) + length (filter IS_CHAR_VALID (a @ b)) < CLI_COMMAND_LENGTH cfg"
  shows "rel_option same_dispatch (feed cfg cmds s [a, b]) (feed cfg cmds s [a @ b])"
proof (cases "IS_STATUS s CLI_STATUS_BUSY")
  case True
  then have "CLI_Input cfg cmds s y = Some (USBD_OK, s)" for y by (simp add: CLI_Input_def)
  then show ?thesis by (simp add: same_dispatch_refl)
next
  case nb: False
  show ?thesis
  proof (cases "a = []")
    case True
    then have "feed cfg cmds s [a, b] = feed cfg cmds s [a @ b]" by (simp add: CLI_Input_def)
    then show ?thesis by (simp only: rel_same_dispatch_refl)
  next
    case ne: False
    let ?N = "CLI_COMMAND_LENGTH cfg"
    from inv have len: "length (CommandBuffer s) = ?N" by (simp add: cli_inv_def)
    from cap have cap_a: "unat (CmdBufIdxIn s) + length (filter IS_CHAR_VALID a) < ?N" by simp
    from BufferInput_fits [OF len N cap_a] obtain s1 where
      A: "BufferInput cfg s a = Some (CLI_RESULT_OK, s1)" by blast
    from BufferInput_fits [OF len N cap] obtain s2 where
      AB: "BufferInput cfg s (a @ b) = Some (CLI_RESULT_OK, s2)" by blast
    from AB A have B: "BufferInput cfg s1 b = Some (CLI_RESULT_OK, s2)"
      by (simp add: BufferInput_append)
    note I1 = BufferInput_inv [OF N inv nb A]
    note F1 = BufferInput_frame [OF A]
    note C1 = BufferInput_cli_inv [OF N inv nb A]
    note I2 = BufferInput_inv [OF N C1 B]
    note F2 = BufferInput_frame [OF B]
    from I1(5) have in1: "unat (CmdBufIdxIn s1) < ?N" by simp
    from I2(5) have in2: "unat (CmdBufIdxIn s2) < ?N" by simp
    from I1(4) in1 have z1: "CommandBuffer s1 ! unat (CmdBufIdxIn s1) = NUL"
      by (simp add: zero_filled_def)
    from I2(4) in2 have z2: "CommandBuffer s2 ! unat (CmdBufIdxIn s2) = NUL"
      by (simp add: zero_filled_def)
    from in1 I1(1) z1 have t1: "terminated (CommandBuffer s1) 0"
      by (intro terminatedI [of 0 "unat (CmdBufIdxIn s1)"]) simp_all
    from in2 I2(1) z2 have t2: "terminated (CommandBuffer s2) 0"
      by (intro terminatedI [of 0 "unat (CmdBufIdxIn s2)"]) simp_all
    from t1 obtain pNL where nl: "strstr (CommandBuffer s1) (CLI_STRING_NEWLINE cfg) = Some pNL"
      by (simp add: strstr_def)
    show ?thesis
    proof (cases pNL)
      case None
      with nb ne A nl have first: "CLI_Input cfg cmds s a = Some (USBD_OK, s1)"
        by (simp add: CLI_Input_def)
      show ?thesis
      proof (cases "b = []")
        case True
        with first show ?thesis by (simp add: CLI_Input_def same_dispatch_refl)
      next
        case False
        with nb ne C1(2) AB B have "CLI_Input cfg cmds s1 b = CLI_Input cfg cmds s (a @ b)"
          by (simp add: CLI_Input_def)
        with first have "feed cfg cmds s [a, b] = feed cfg cmds s [a @ b]" by simp
        then show ?thesis by (simp only: rel_same_dispatch_refl)
      qed
    next
      case (Some k)
      with nl have found: "strstr (CommandBuffer s1) (CLI_STRING_NEWLINE cfg) = Some (Some k)"
        by simp
      from in1 I1(1) have i1: "unat (CmdBufIdxIn s1) < length (CommandBuffer s1)" by simp
      from in1 I2(1) have i2: "unat (CmdBufIdxIn s1) < length (CommandBuffer s2)" by simp
      note X = strstr_extended [OF found i1 z1 I2(7) t2]
      let ?d1 = "InvokeCommand cfg cmds (s1\<lparr>CommandBuffer := (CommandBuffer s1)[k := NUL]\<rparr>) \<bind>
               (\<lambda>(p, d). Some (USBD_OK,
                  SET_STATUS (d\<lparr>pResponse := p\<rparr>) (CLI_STATUS_BUSY OR CLI_STATUS_BREAK)))"
      let ?d2 = "InvokeCommand cfg cmds (s2\<lparr>CommandBuffer := (CommandBuffer s2)[k := NUL]\<rparr>) \<bind>
               (\<lambda>(p, d). Some (USBD_OK,
                  SET_STATUS (d\<lparr>pResponse := p\<rparr>) (CLI_STATUS_BUSY OR CLI_STATUS_BREAK)))"
      have first: "CLI_Input cfg cmds s a = ?d1"
        using nb ne A found by (simp add: CLI_Input_def)
      have whole: "CLI_Input cfg cmds s (a @ b) = ?d2"
        using nb ne AB X(1) by (simp add: CLI_Input_def)
      have rel: "rel_option same_dispatch (map_option snd ?d1) (map_option snd ?d2)"
        using X(2) i1 i2 I2(2) I2(7) F2 by (intro dispatch_two_buffers) simp_all
      have busy: "IS_STATUS e CLI_STATUS_BUSY" if "?d1 = Some (r, e)" for r e
      proof -
        from that obtain p d where
          "e = SET_STATUS (d\<lparr>pResponse := p\<rparr>) (CLI_STATUS_BUSY OR CLI_STATUS_BREAK)"
          by (auto split: Option.bind_splits)
        then show ?thesis
          unfolding IS_STATUS_BUSY by (simp add: SET_STATUS_def flag_values bit_simps)
      qed
      have two: "feed cfg cmds s [a, b] = map_option snd ?d1"
      proof (cases ?d1)
        case None
        with first show ?thesis by simp
      next
        case (Some re)
        obtain r e where re: "re = (r, e)" by (cases re)
        from busy [of r e] Some re have "CLI_Input cfg cmds e b = Some (USBD_OK, e)"
          by (simp add: CLI_Input_def)
        with first Some re show ?thesis by simp
      qed
      show ?thesis
        unfolding two feed_single whole using rel .
    qed
  qed
qed

lemma CLI_Input_write_index:
  assumes N: "CLI_COMMAND_LENGTH cfg \<le> 65535"
    and inv: "cli_inv cfg s"
    and cap: "unat (CmdBufIdxIn s) + length (filter IS_CHAR_VALID x) < CLI_COMMAND_LENGTH cfg"
    and step: "CLI_Input cfg cmds s x = Some (r, s1)"
  shows "unat (CmdBufIdxIn s1) \<le> unat (CmdBufIdxIn s) + length (filter IS_CHAR_VALID x)"
proof (cases "IS_STATUS s CLI_STATUS_BUSY \<or> x = []")
  case True
  with step have "s1 = s" by (auto simp add: CLI_Input_def)
  then show ?thesis by simp
next
  case False
  then have nb: "\<not> IS_STATUS s CLI_STATUS_BUSY" and ne: "x \<noteq> []" by simp_all
  from inv have len: "length (CommandBuffer s) = CLI_COMMAND_LENGTH cfg" by (simp add: cli_inv_def)
  let ?b = "s\<lparr>CommandBuffer := take (unat (CmdBufIdxIn s)) (CommandBuffer s) @
            filter IS_CHAR_VALID x @
            drop (unat (CmdBufIdxIn s) + length (filter IS_CHAR_VALID x)) (CommandBuffer s),
         CmdBufIdxIn := CmdBufIdxIn s + of_nat (length (filter IS_CHAR_VALID x))\<rparr>"
  from BufferInput_fits [OF len N cap]
  have b: "BufferInput cfg s x = Some (CLI_RESULT_OK, ?b)" .
  have u: "unat (CmdBufIdxIn ?b) = unat (CmdBufIdxIn s) + length (filter IS_CHAR_VALID x)"
    using cap N by (simp add: unat_plus_of_nat)
  from step nb ne b have "CmdBufIdxIn s1 = CmdBufIdxIn ?b"
    by (auto simp add: CLI_Input_def SET_STATUS_def
        split: Option.bind_splits option.splits dest: InvokeCommand_frame(1))
  with u show ?thesis by simp
qed

lemma feed_chunks:
  assumes N: "CLI_COMMAND_LENGTH cfg \<le> 65535"
  shows "cli_inv cfg s \<Longrightarrow>
    unat (CmdBufIdxIn s) + length (filter IS_CHAR_VALID (concat chunks)) < CLI_COMMAND_LENGTH cfg \<Longrightarrow>
    rel_option same_dispatch (feed cfg cmds s chunks) (feed cfg cmds s [concat chunks])"
proof (induction chunks arbitrary: s)
  case Nil
  then show ?case by (simp add: CLI_Input_def same_dispatch_refl)
next
  case (Cons c cs)
  from Cons.prems(2)
  have cap: "unat (CmdBufIdxIn s) + length (filter IS_CHAR_VALID (c @ concat cs))
      < CLI_COMMAND_LENGTH cfg" by simp
  from feed_two_chunks [OF N Cons.prems(1) cap]
  have two: "rel_option same_dispatch (feed cfg cmds s [c, concat cs])
      (feed cfg cmds s [concat (c # cs)])" by simp
  show ?case
  proof (cases "CLI_Input cfg cmds s c")
    case None
    then have "feed cfg cmds s (c # cs) = feed cfg cmds s [c, concat cs]" by simp
    with two show ?thesis by simp
  next
    case (Some rs)
    obtain r s1 where rs: "rs = (r, s1)" by (cases rs)
    with Some have step: "CLI_Input cfg cmds s c = Some (r, s1)" by simp
    from CLI_Input_inv [OF N Cons.prems(1) step] have inv1: "cli_inv cfg s1" .
    from cap have "unat (CmdBufIdxIn s) + length (filter IS_CHAR_VALID c) < CLI_COMMAND_LENGTH cfg"
      by simp
    from CLI_Input_write_index [OF N Cons.prems(1) this step] cap
    have cap1: "unat (CmdBufIdxIn s1) + length (filter IS_CHAR_VALID (concat cs))
        < CLI_COMMAND_LENGTH cfg" by simp
    from Cons.IH [OF inv1 cap1]
    have "rel_option same_dispatch (feed cfg cmds s1 cs) (feed cfg cmds s1 [concat cs])" .
    moreover from step have "feed cfg cmds s (c # cs) = feed cfg cmds s1 cs"
      "feed cfg cmds s [c, concat cs] = feed cfg cmds s1 [concat cs]" by simp_all
    ultimately have "rel_option same_dispatch (feed cfg cmds s (c # cs))
        (feed cfg cmds s [c, concat cs])" by simp
    from rel_same_dispatch_trans [OF this two] show ?thesis .
  qed
qed

subsection \<open>Chunking\<close>

text \<open>
  Claim C7, as the code has it. Take a state reached by any sequence of calls from the
  initial state and a list of chunks whose accepted bytes, added to the write index, stay
  strictly below \<open>CLI_COMMAND_LENGTH\<close>: one byte of the array stays free. Feeding the chunks by successive \<open>CLI_Input\<close> calls and feeding
  their concatenation in one call end in states related by \<open>same_dispatch\<close>: the
  response buffer, the flags (in particular whether a line was dispatched), the
  response pointer and the read cursor are equal, and everything the chunked delivery
  has in its command buffer up to its write index, the dispatched line as trimmed and
  split in place included, is also what the single call has there. The single call may
  hold further bytes behind: those that the chunked delivery was offered while busy.
  If a command function has no defined result, neither delivery has one. The number of
  terminators in the bytes does not matter: the first one decides.
\<close>

theorem chunking_invariance:
  assumes "0 < CLI_COMMAND_LENGTH cfg" and "CLI_COMMAND_LENGTH cfg \<le> 65535"
    and "run cfg cmds (initial_state cfg) ops = Some s"
    and "unat (CmdBufIdxIn s) + length (filter IS_CHAR_VALID (concat chunks))
           < CLI_COMMAND_LENGTH cfg"
  shows "rel_option same_dispatch (feed cfg cmds s chunks) (feed cfg cmds s [concat chunks])"
  using feed_chunks [OF assms(2) reachable_inv [OF assms(1,2,3)] assms(4)] .

theorem chunking_invariance_witness:
  "rel_option same_dispatch
     (feed example_config CommandSet (idle_state example_config ErrorMessage_Other)
        [''GET'', ''_LOG'' @ [CHR 0x0D], [CHR 0x0A], ''AB''])
     (feed example_config CommandSet (idle_state example_config ErrorMessage_Other)
        [''GET_LOG'' @ [CHR 0x0D, CHR 0x0A] @ ''AB'']) \<and>
   map_option ResponseBuffer
     (feed example_config CommandSet (idle_state example_config ErrorMessage_Other)
        [''GET'', ''_LOG'' @ [CHR 0x0D], [CHR 0x0A], ''AB''])
     = Some (''abcdefghijklmnopqrstuvwxyz'' @ replicate 6 NUL) \<and>
   map_option CommandBuffer
     (feed example_config CommandSet (idle_state example_config ErrorMessage_Other)
        [''GET'', ''_LOG'' @ [CHR 0x0D], [CHR 0x0A], ''AB''])
     = Some (''GET_LOG'' @ NUL # CHR 0x0A # replicate 7 NUL) \<and>
   map_option CommandBuffer
     (feed example_config CommandSet (idle_state example_config ErrorMessage_Other)
        [''GET_LOG'' @ [CHR 0x0D, CHR 0x0A] @ ''AB''])
     = Some (''GET_LOG'' @ NUL # CHR 0x0A # ''AB'' @ replicate 5 NUL)"
proof -
  let ?s = "idle_state example_config ErrorMessage_Other"
  let ?chunks = "[''GET'', ''_LOG'' @ [CHR 0x0D], [CHR 0x0A], ''AB'']"
  have 1: "0 < CLI_COMMAND_LENGTH example_config" by (simp add: example_config_def)
  have 2: "CLI_COMMAND_LENGTH example_config \<le> 65535" by (simp add: example_config_def)
  have 3: "run example_config CommandSet (initial_state example_config)
      [Output, Output, Output, Output, Output] = Some ?s"
    by code_simp
  have 4: "unat (CmdBufIdxIn ?s) + length (filter IS_CHAR_VALID (concat ?chunks))
      < CLI_COMMAND_LENGTH example_config"
    by code_simp
  have 5: "concat ?chunks = ''GET_LOG'' @ [CHR 0x0D, CHR 0x0A] @ ''AB''" by simp
  from chunking_invariance [OF 1 2 3 4]
  have a: "rel_option same_dispatch (feed example_config CommandSet ?s ?chunks)
      (feed example_config CommandSet ?s [''GET_LOG'' @ [CHR 0x0D, CHR 0x0A] @ ''AB''])"
    unfolding 5 .
  have b: "map_option ResponseBuffer (feed example_config CommandSet ?s ?chunks)
     = Some (''abcdefghijklmnopqrstuvwxyz'' @ replicate 6 NUL)"
    by code_simp
  have c: "map_option CommandBuffer (feed example_config CommandSet ?s ?chunks)
     = Some (''GET_LOG'' @ NUL # CHR 0x0A # replicate 7 NUL)"
    by code_simp
  have d: "map_option CommandBuffer
     (feed example_config CommandSet ?s [''GET_LOG'' @ [CHR 0x0D, CHR 0x0A] @ ''AB''])
     = Some (''GET_LOG'' @ NUL # CHR 0x0A # ''AB'' @ replicate 5 NUL)"
    by code_simp
  from a b c d show ?thesis by (intro conjI)
qed

text \<open>
  The claim as stated covers every sequence that stays within the capacity. Sixteen
  accepted bytes with one terminator fill the sixteen bytes of the command buffer of
  \<open>example_config\<close> exactly. Delivered in two chunks, the first one is dispatched (the
  response buffer holds the letters of \<open>GET_LOG\<close>) and the second one is ignored while
  busy; delivered in one call, the write index reaches \<open>CLI_COMMAND_LENGTH\<close>, overflow is
  flagged and nothing is dispatched.
\<close>

theorem chunking_invariance_counterexample:
  "run example_config CommandSet (initial_state example_config)
     [Output, Output, Output, Output, Output]
     = Some (idle_state example_config ErrorMessage_Other) \<and>
   unat (CmdBufIdxIn (idle_state example_config ErrorMessage_Other)) +
     length (filter IS_CHAR_VALID
       (concat [''GET_LOG'' @ [CHR 0x0D, CHR 0x0A], ''ABCDEFG'']))
     = CLI_COMMAND_LENGTH example_config \<and>
   feed example_config CommandSet (idle_state example_config ErrorMessage_Other)
     [''GET_LOG'' @ [CHR 0x0D, CHR 0x0A], ''ABCDEFG'']
     = Some (idle_state example_config ResponseBuffer_ptr
         \<lparr>CommandBuffer := ''GET_LOG'' @ NUL # CHR 0x0A # replicate 7 NUL,
          ResponseBuffer := ''abcdefghijklmnopqrstuvwxyz'' @ replicate 6 NUL,
          CmdBufIdxIn := 9, CLI_Status := 0x31\<rparr>) \<and>
   feed example_config CommandSet (idle_state example_config ErrorMessage_Other)
     [concat [''GET_LOG'' @ [CHR 0x0D, CHR 0x0A], ''ABCDEFG'']]
     = Some (idle_state example_config ErrorMessage_Other
         \<lparr>CommandBuffer := ''GET_LOG'' @ CHR 0x0D # CHR 0x0A # ''ABCDEFG'',
          CmdBufIdxIn := 16, CLI_Status := 0x121\<rparr>) \<and>
   \<not> rel_option same_dispatch
     (feed example_config CommandSet (idle_state example_config ErrorMessage_Other)
        [''GET_LOG'' @ [CHR 0x0D, CHR 0x0A], ''ABCDEFG''])
     (feed example_config CommandSet (idle_state example_config ErrorMessage_Other)
        [concat [''GET_LOG'' @ [CHR 0x0D, CHR 0x0A], ''ABCDEFG'']])"
  by code_simp

subsection \<open>The size of the response buffer\<close>

lemma InvokeCommand_response_size:
  assumes "InvokeCommand cfg cmds c = Some (p, d)"
    and "CLI_RESPONSE_LENGTH cfg \<le> length (ResponseBuffer c)"
  shows "CLI_RESPONSE_LENGTH cfg \<le> length (ResponseBuffer d)"
  using assms
  by (auto simp add: InvokeCommand_def
      split: Option.bind_splits if_splits option.splits prod.splits)

lemma CLI_Input_response_size:
  assumes "CLI_Input cfg cmds s pInput = Some (r, s')"
    and "CLI_RESPONSE_LENGTH cfg \<le> length (ResponseBuffer s)"
  shows "CLI_RESPONSE_LENGTH cfg \<le> length (ResponseBuffer s')"
proof (cases "IS_STATUS s CLI_STATUS_BUSY \<or> pInput = []")
  case True
  with assms show ?thesis by (auto simp add: CLI_Input_def)
next
  case False
  with assms(1) obtain r1 s1 where b: "BufferInput cfg s pInput = Some (r1, s1)"
    by (auto simp add: CLI_Input_def split: Option.bind_splits)
  from BufferInput_frame [OF b] have rb: "ResponseBuffer s1 = ResponseBuffer s" by simp
  show ?thesis
  proof (cases "r1 = CLI_RESULT_OK")
    case ok: False
    with assms False b rb show ?thesis by (auto simp add: CLI_Input_def SET_STATUS_def)
  next
    case ok: True
    with assms(1) False b obtain pNL where
      nl: "strstr (CommandBuffer s1) (CLI_STRING_NEWLINE cfg) = Some pNL"
      by (auto simp add: CLI_Input_def split: Option.bind_splits)
    show ?thesis
    proof (cases pNL)
      case None
      with assms False b ok nl rb show ?thesis by (auto simp add: CLI_Input_def)
    next
      case (Some k)
      with assms(1) False b ok nl obtain p d where
        i: "InvokeCommand cfg cmds (s1\<lparr>CommandBuffer := (CommandBuffer s1)[k := NUL]\<rparr>) = Some (p, d)"
        and s': "s' = SET_STATUS (d\<lparr>pResponse := p\<rparr>) (CLI_STATUS_BUSY OR CLI_STATUS_BREAK)"
        by (auto simp add: CLI_Input_def split: Option.bind_splits)
      from InvokeCommand_response_size [OF i] assms(2) rb
      have "CLI_RESPONSE_LENGTH cfg \<le> length (ResponseBuffer d)" by simp
      then show ?thesis unfolding s' by (simp add: SET_STATUS_def)
    qed
  qed
qed

lemma CLI_Output_response_size:
  assumes "CLI_Output cfg s = Some (p, s')"
    and "CLI_RESPONSE_LENGTH cfg \<le> length (ResponseBuffer s)"
  shows "CLI_RESPONSE_LENGTH cfg \<le> length (ResponseBuffer s')"
  using assms
  by (auto simp add: CLI_Output_def status_updates ResetBuffer_def Let_def
      split: if_splits Option.bind_splits)

lemma run_response_size:
  "CLI_RESPONSE_LENGTH cfg \<le> length (ResponseBuffer s) \<Longrightarrow>
   run cfg cmds s ops = Some s' \<Longrightarrow>
   CLI_RESPONSE_LENGTH cfg \<le> length (ResponseBuffer s')"
proof (induction ops arbitrary: s)
  case Nil
  then show ?case by simp
next
  case (Cons op ops)
  show ?case
  proof (cases op)
    case (Input pInput)
    with Cons.prems(2) obtain r t where
      t: "CLI_Input cfg cmds s pInput = Some (r, t)" "run cfg cmds t ops = Some s'"
      by (auto split: option.splits)
    from CLI_Input_response_size [OF t(1) Cons.prems(1)] t(2) show ?thesis
      by (rule Cons.IH)
  next
    case Output
    with Cons.prems(2) obtain p t where
      t: "CLI_Output cfg s = Some (p, t)" "run cfg cmds t ops = Some s'"
      by (auto split: option.splits)
    from CLI_Output_response_size [OF t(1) Cons.prems(1)] t(2) show ?thesis
      by (rule Cons.IH)
  qed
qed

lemma reachable_response_size:
  assumes "run cfg cmds (initial_state cfg) ops = Some s"
  shows "CLI_RESPONSE_LENGTH cfg \<le> length (ResponseBuffer s)"
  using run_response_size [OF _ assms] by (simp add: initial_state_def)

subsection \<open>No line is waiting while input is accepted\<close>

lemma strstr_zeros:
  "0 < n \<Longrightarrow> needle \<noteq> [] \<Longrightarrow> strstr (replicate n NUL) needle = Some None"
  by (cases n) (simp_all add: strstr_def terminated_def c_str_def)

lemma no_line_initial:
  "0 < CLI_COMMAND_LENGTH cfg \<Longrightarrow> CLI_STRING_NEWLINE cfg \<noteq> [] \<Longrightarrow>
   no_line cfg (initial_state cfg)"
  by (simp add: no_line_def initial_state_def strstr_zeros)

lemma CLI_Input_no_line:
  assumes "no_line cfg s" and "CLI_Input cfg cmds s pInput = Some (r, s')"
  shows "no_line cfg s'"
proof (cases "IS_STATUS s CLI_STATUS_BUSY \<or> pInput = []")
  case True
  with assms show ?thesis by (auto simp add: CLI_Input_def)
next
  case False
  with assms(2) obtain r1 s1 where b: "BufferInput cfg s pInput = Some (r1, s1)"
    by (auto simp add: CLI_Input_def split: Option.bind_splits)
  from BufferInput_frame [OF b] have st: "CLI_Status s1 = CLI_Status s" by simp
  show ?thesis
  proof (cases "r1 = CLI_RESULT_OK")
    case ok: False
    with assms(2) False b have "s' = SET_STATUS s1 (CLI_STATUS_BUSY OR CLI_STATUS_CMDOVF)"
      by (simp add: CLI_Input_def)
    then have "bit (CLI_Status s') 5"
      by (simp add: SET_STATUS_def flag_values bit_simps)
    then show ?thesis unfolding no_line_def IS_STATUS_BUSY by simp
  next
    case ok: True
    with assms(2) False b obtain pNL where
      nl: "strstr (CommandBuffer s1) (CLI_STRING_NEWLINE cfg) = Some pNL"
      by (auto simp add: CLI_Input_def split: Option.bind_splits)
    show ?thesis
    proof (cases pNL)
      case None
      with assms(2) False b ok nl have "s' = s1" by (simp add: CLI_Input_def)
      with nl None show ?thesis by (simp add: no_line_def)
    next
      case (Some k)
      with assms(2) False b ok nl obtain p d where
        "s' = SET_STATUS (d\<lparr>pResponse := p\<rparr>) (CLI_STATUS_BUSY OR CLI_STATUS_BREAK)"
        by (auto simp add: CLI_Input_def split: Option.bind_splits)
      then have "bit (CLI_Status s') 5"
        by (simp add: SET_STATUS_def flag_values bit_simps)
      then show ?thesis unfolding no_line_def IS_STATUS_BUSY by simp
    qed
  qed
qed

lemma CLI_Output_no_line:
  assumes N: "0 < CLI_COMMAND_LENGTH cfg" and nl: "CLI_STRING_NEWLINE cfg \<noteq> []"
    and inv: "no_line cfg s"
    and step: "CLI_Output cfg s = Some (p, s')"
  shows "no_line cfg s'"
proof -
  from inv have J: "\<not> bit (CLI_Status s) 5 \<longrightarrow>
      strstr (CommandBuffer s) (CLI_STRING_NEWLINE cfg) = Some None"
    by (simp add: no_line_def IS_STATUS_BUSY)
  have reset: "strstr (CommandBuffer (ResetBuffer cfg s)) (CLI_STRING_NEWLINE cfg) = Some None"
    using N nl by (simp add: ResetBuffer_def strstr_zeros)
  consider (err) "IS_ANY_STATUS s CLI_STATUS_ERROR_MASK"
    | (echo) "\<not> IS_ANY_STATUS s CLI_STATUS_ERROR_MASK" "IS_STATUS s CLI_STATUS_ECHO"
    | (newline) "\<not> IS_ANY_STATUS s CLI_STATUS_ERROR_MASK" "\<not> IS_STATUS s CLI_STATUS_ECHO"
        "IS_STATUS s CLI_STATUS_NEWLINE"
    | (response) "\<not> IS_ANY_STATUS s CLI_STATUS_ERROR_MASK" "\<not> IS_STATUS s CLI_STATUS_ECHO"
        "\<not> IS_STATUS s CLI_STATUS_NEWLINE" "IS_STATUS s CLI_STATUS_RESPONSE"
    | (prompt) "\<not> IS_ANY_STATUS s CLI_STATUS_ERROR_MASK" "\<not> IS_STATUS s CLI_STATUS_ECHO"
        "\<not> IS_STATUS s CLI_STATUS_NEWLINE" "\<not> IS_STATUS s CLI_STATUS_RESPONSE"
        "IS_STATUS s CLI_STATUS_PROMPT"
    | (other) "\<not> IS_ANY_STATUS s CLI_STATUS_ERROR_MASK" "\<not> IS_STATUS s CLI_STATUS_ECHO"
        "\<not> IS_STATUS s CLI_STATUS_NEWLINE" "\<not> IS_STATUS s CLI_STATUS_RESPONSE"
        "\<not> IS_STATUS s CLI_STATUS_PROMPT"
    by blast
  then have "CommandBuffer s' = CommandBuffer (ResetBuffer cfg s) \<or>
      CommandBuffer s' = CommandBuffer s \<and> (bit (CLI_Status s) 5 \<longrightarrow> bit (CLI_Status s') 5) \<or>
      bit (CLI_Status s') 5"
  proof cases
    case err
    with step have "s' = UPDATE_STATUS (s\<lparr>pResponse := ErrorMessage_CmdOvf\<rparr>)
                  (CLI_STATUS_RESPONSE OR CLI_STATUS_NEWLINE)
                  (CLI_STATUS_CMDOVF OR CLI_STATUS_ECHO)"
      by (simp add: CLI_Output_def split: if_splits)
    then show ?thesis by (simp add: UPDATE_STATUS_def flag_values bit_simps)
  next
    case echo
    with step have "CommandBuffer s' = CommandBuffer s \<and>
        (CLI_Status s' = CLI_Status s \<or>
         CLI_Status s' = (CLI_Status s AND NOT 0x11) OR 0xA \<or>
         CLI_Status s' = (CLI_Status s AND NOT 0x11) OR 0x6)"
      by (auto simp add: CLI_Output_def Let_def UPDATE_STATUS_def flag_values
          split: if_splits Option.bind_splits)
    then show ?thesis by (auto simp add: bit_simps)
  next
    case newline
    with step have "s' = CLEAR_STATUS s CLI_STATUS_NEWLINE" by (simp add: CLI_Output_def)
    then show ?thesis by (simp add: CLEAR_STATUS_def flag_values bit_simps)
  next
    case response
    with step have "s' = UPDATE_STATUS s (CLI_STATUS_NEWLINE OR CLI_STATUS_PROMPT)
        CLI_STATUS_RESPONSE"
      by (simp add: CLI_Output_def)
    then show ?thesis by (simp add: UPDATE_STATUS_def flag_values bit_simps)
  next
    case prompt
    with step have "s' = UPDATE_STATUS (ResetBuffer cfg s) CLI_STATUS_ECHO
                (CLI_STATUS_PROMPT OR CLI_STATUS_BUSY)"
      by (simp add: CLI_Output_def)
    then show ?thesis by (simp add: UPDATE_STATUS_def)
  next
    case other
    with step have "s' = SET_STATUS (s\<lparr>pResponse := ErrorMessage_Other\<rparr>)
                (CLI_STATUS_RESPONSE OR CLI_STATUS_NEWLINE OR CLI_STATUS_BUSY)"
      by (simp add: CLI_Output_def)
    then show ?thesis by (simp add: SET_STATUS_def flag_values bit_simps)
  qed
  with J reset show ?thesis unfolding no_line_def IS_STATUS_BUSY by auto
qed

lemma run_no_line:
  "0 < CLI_COMMAND_LENGTH cfg \<Longrightarrow> CLI_STRING_NEWLINE cfg \<noteq> [] \<Longrightarrow> no_line cfg s \<Longrightarrow>
   run cfg cmds s ops = Some s' \<Longrightarrow> no_line cfg s'"
proof (induction ops arbitrary: s)
  case Nil
  then show ?case by simp
next
  case (Cons op ops)
  show ?case
  proof (cases op)
    case (Input pInput)
    with Cons.prems(4) obtain r t where
      t: "CLI_Input cfg cmds s pInput = Some (r, t)" "run cfg cmds t ops = Some s'"
      by (auto split: option.splits)
    from Cons.prems(1,2) CLI_Input_no_line [OF Cons.prems(3) t(1)] t(2) show ?thesis
      by (rule Cons.IH)
  next
    case Output
    with Cons.prems(4) obtain p t where
      t: "CLI_Output cfg s = Some (p, t)" "run cfg cmds t ops = Some s'"
      by (auto split: option.splits)
    from Cons.prems(1,2) CLI_Output_no_line [OF Cons.prems(1,2,3) t(1)] t(2) show ?thesis
      by (rule Cons.IH)
  qed
qed

lemma reachable_no_line:
  assumes "0 < CLI_COMMAND_LENGTH cfg" and "CLI_STRING_NEWLINE cfg \<noteq> []"
    and "run cfg cmds (initial_state cfg) ops = Some s"
  shows "no_line cfg s"
  using run_no_line [OF assms(1,2) no_line_initial [OF assms(1,2)] assms(3)] .

text \<open>A call that finds a terminator in a reachable state has appended a byte.\<close>

lemma terminator_appended:
  assumes N: "CLI_COMMAND_LENGTH cfg \<le> 65535"
    and inv: "cli_inv cfg s" and J: "no_line cfg s"
    and nb: "\<not> IS_STATUS s CLI_STATUS_BUSY"
    and step: "BufferInput cfg s pInput = Some (CLI_RESULT_OK, s1)"
    and nl: "strstr (CommandBuffer s1) (CLI_STRING_NEWLINE cfg) = Some (Some k)"
  shows "unat (CmdBufIdxIn s) < unat (CmdBufIdxIn s1)"
proof (rule ccontr)
  assume "\<not> unat (CmdBufIdxIn s) < unat (CmdBufIdxIn s1)"
  note B = BufferInput_inv [OF N inv nb step]
  from B(2) \<open>\<not> unat (CmdBufIdxIn s) < unat (CmdBufIdxIn s1)\<close>
  have eq: "unat (CmdBufIdxIn s1) = unat (CmdBufIdxIn s)" by simp
  from inv have len: "length (CommandBuffer s) = CLI_COMMAND_LENGTH cfg"
    and zf: "zero_filled cfg s"
    by (simp_all add: cli_inv_def)
  have "CommandBuffer s1 = CommandBuffer s"
  proof (rule nth_equalityI)
    show "length (CommandBuffer s1) = length (CommandBuffer s)" using B(1) len by simp
  next
    fix i assume i: "i < length (CommandBuffer s1)"
    show "CommandBuffer s1 ! i = CommandBuffer s ! i"
    proof (cases "i < unat (CmdBufIdxIn s)")
      case True
      then have "CommandBuffer s1 ! i = take (unat (CmdBufIdxIn s)) (CommandBuffer s1) ! i"
        by simp
      also have "\<dots> = take (unat (CmdBufIdxIn s)) (CommandBuffer s) ! i" by (simp only: B(7))
      also have "\<dots> = CommandBuffer s ! i" using True by simp
      finally show ?thesis .
    next
      case False
      with i B(1) zf B(4) eq show ?thesis by (simp add: zero_filled_def)
    qed
  qed
  with J nb nl show False by (simp add: no_line_def)
qed

subsection \<open>Blank lines, dispatched\<close>

text \<open>
  Claim C4, as the code has it. Take buffers of positive size (the command buffer of at
  most 65535 bytes), a state reached by any sequence of calls from the initial state that
  is not busy, and input that \<open>BufferInput\<close> appends without overflow, after which
  \<open>CLI_Input\<close> finds the terminator at index \<open>k\<close> with nothing but spaces (or nothing at
  all) before it. Then the line is dispatched and the dispatcher leaves the empty string
  in the response buffer, whatever the flags were. When moreover the newline string is
  not empty and the call was made with the ECHO flag set and no other flag except
  possibly BREAK, what the sequencer does next depends on the echo fragment at the read
  cursor, not on the response: when that fragment is empty (the read cursor stands at
  \<open>k\<close>, as for an empty line or when the spaces were echoed before), the fragments are the
  empty echo, the newline and the prompt, and the response and its newline are skipped;
  otherwise (the read cursor is before \<open>k\<close> and spaces are still to be echoed, for
  instance) the fragments are the echo, the newline, the empty response, a second newline
  and the prompt.
\<close>

theorem blank_line:
  assumes "0 < CLI_COMMAND_LENGTH cfg" and "CLI_COMMAND_LENGTH cfg \<le> 65535"
    and "0 < CLI_RESPONSE_LENGTH cfg"
    and "run cfg cmds (initial_state cfg) ops = Some s"
    and "\<not> IS_STATUS s CLI_STATUS_BUSY" and "pInput \<noteq> []"
    and "BufferInput cfg s pInput = Some (CLI_RESULT_OK, s1)"
    and "strstr (CommandBuffer s1) (CLI_STRING_NEWLINE cfg) = Some (Some k)"
    and "set (take k (CommandBuffer s1)) \<subseteq> {CHR '' ''}"
  shows "\<exists>s2. CLI_Input cfg cmds s pInput = Some (USBD_OK, s2) \<and>
           c_str (ResponseBuffer s2) 0 = [] \<and>
           (CLI_STRING_NEWLINE cfg \<noteq> [] \<and>
            (CLI_Status s = CLI_STATUS_ECHO \<or>
             CLI_Status s = CLI_STATUS_ECHO OR CLI_STATUS_BREAK) \<longrightarrow>
              (unat (CmdBufIdxOut s2) = k \<longrightarrow>
                 c_str (CommandBuffer s2) (unat (CmdBufIdxOut s2)) = []) \<and>
              (unat (CmdBufIdxOut s2) < k \<longrightarrow>
                 c_str (CommandBuffer s2) (unat (CmdBufIdxOut s2)) \<noteq> []) \<and>
              poll_until_idle 6 cfg s2 =
                Some (if c_str (CommandBuffer s2) (unat (CmdBufIdxOut s2)) = []
                      then [[], CLI_STRING_NEWLINE cfg, CLI_STRING_PROMPT cfg]
                      else [c_str (CommandBuffer s2) (unat (CmdBufIdxOut s2)),
                            CLI_STRING_NEWLINE cfg, [], CLI_STRING_NEWLINE cfg,
                            CLI_STRING_PROMPT cfg],
                      idle_state cfg ResponseBuffer_ptr))"
proof -
  let ?buf = "(CommandBuffer s1)[k := NUL]"
  let ?o = "unat (CmdBufIdxOut s1)"
  define t where "t = SET_STATUS
      (s1\<lparr>CommandBuffer := ?buf, ResponseBuffer := (ResponseBuffer s1)[0 := NUL],
          pResponse := ResponseBuffer_ptr\<rparr>) (CLI_STATUS_BUSY OR CLI_STATUS_BREAK)"
  have fields: "CommandBuffer t = ?buf" "ResponseBuffer t = (ResponseBuffer s1)[0 := NUL]"
    "CmdBufIdxOut t = CmdBufIdxOut s1" "CmdBufIdxIn t = CmdBufIdxIn s1"
    "pResponse t = ResponseBuffer_ptr"
    "CLI_Status t = CLI_Status s1 OR (CLI_STATUS_BUSY OR CLI_STATUS_BREAK)"
    by (simp_all add: t_def SET_STATUS_def)
  from reachable_inv [OF assms(1,2,4)] have inv: "cli_inv cfg s" .
  note C = BufferInput_cli_inv [OF assms(2) inv assms(5,7)]
  note F = BufferInput_frame [OF assms(7)]
  from reachable_response_size [OF assms(4)] assms(3) F
  have rb: "ResponseBuffer s1 \<noteq> []" by auto
  from strstr_found [OF assms(8)] have k: "k < length (CommandBuffer s1)" by simp
  have "InvokeCommand_split ?buf = Some (?buf, None)"
    using k assms(9) by (intro InvokeCommand_split_blank [of k]) simp_all
  then have "InvokeCommand cfg cmds (s1\<lparr>CommandBuffer := ?buf\<rparr>) =
      Some (ResponseBuffer_ptr,
            s1\<lparr>CommandBuffer := ?buf, ResponseBuffer := (ResponseBuffer s1)[0 := NUL]\<rparr>)"
    using rb by (simp add: InvokeCommand_def)
  then have inp: "CLI_Input cfg cmds s pInput = Some (USBD_OK, t)"
    using assms(5-8) by (simp add: CLI_Input_def t_def)
  have res: "c_str (ResponseBuffer t) 0 = []"
    using rb by (simp add: fields c_str_at_NUL)
  have seq: "(unat (CmdBufIdxOut t) = k \<longrightarrow>
                 c_str (CommandBuffer t) (unat (CmdBufIdxOut t)) = []) \<and>
              (unat (CmdBufIdxOut t) < k \<longrightarrow>
                 c_str (CommandBuffer t) (unat (CmdBufIdxOut t)) \<noteq> []) \<and>
              poll_until_idle 6 cfg t =
                Some (if c_str (CommandBuffer t) (unat (CmdBufIdxOut t)) = []
                      then [[], CLI_STRING_NEWLINE cfg, CLI_STRING_PROMPT cfg]
                      else [c_str (CommandBuffer t) (unat (CmdBufIdxOut t)),
                            CLI_STRING_NEWLINE cfg, [], CLI_STRING_NEWLINE cfg,
                            CLI_STRING_PROMPT cfg],
                      idle_state cfg ResponseBuffer_ptr)"
    if nl: "CLI_STRING_NEWLINE cfg \<noteq> []"
      and echo: "CLI_Status s = CLI_STATUS_ECHO \<or>
        CLI_Status s = CLI_STATUS_ECHO OR CLI_STATUS_BREAK"
  proof -
    from inv have "unat (CmdBufIdxOut s) \<le> unat (CmdBufIdxIn s)" by (simp add: cli_inv_def)
    also have "\<dots> < unat (CmdBufIdxIn s1)"
      using assms(2) inv reachable_no_line [OF assms(1) nl assms(4)] assms(5,7,8)
      by (rule terminator_appended)
    finally have lt: "CmdBufIdxOut t < CmdBufIdxIn t"
      using F by (simp add: fields word_less_nat_alt)
    from C(1) have len: "length (CommandBuffer s1) = CLI_COMMAND_LENGTH cfg"
      and zf: "zero_filled cfg s1"
      by (simp_all add: cli_inv_def)
    from cli_inv_not_full [OF C] have in1: "unat (CmdBufIdxIn s1) < CLI_COMMAND_LENGTH cfg" .
    with zf have z: "CommandBuffer s1 ! unat (CmdBufIdxIn s1) = NUL"
      by (simp add: zero_filled_def)
    from lt have oi: "?o \<le> unat (CmdBufIdxIn s1)"
      by (simp add: fields word_less_nat_alt)
    from oi in1 len z have tm: "terminated (CommandBuffer s1) ?o"
      by (intro terminatedI [of ?o "unat (CmdBufIdxIn s1)"]) simp_all
    have at_k: "?o = k \<longrightarrow> c_str ?buf ?o = []"
      using k by (auto simp add: c_str_at_NUL)
    have before_k: "?o < k \<longrightarrow> c_str ?buf ?o \<noteq> []"
    proof
      assume o: "?o < k"
      then have "take k (CommandBuffer s1) ! ?o \<in> set (take k (CommandBuffer s1))"
        using k by (intro nth_mem) simp
      then have "CommandBuffer s1 ! ?o = CHR '' ''" using assms(9) o by auto
      then have "?buf ! ?o \<noteq> NUL" using o by (simp add: NUL_def)
      then show "c_str ?buf ?o \<noteq> []" using o k by (intro c_str_not_at_NUL) simp_all
    qed
    have "poll_until_idle 6 cfg t =
       Some (if c_str (CommandBuffer t) (unat (CmdBufIdxOut t)) = []
             then [[], CLI_STRING_NEWLINE cfg, CLI_STRING_PROMPT cfg]
             else [c_str (CommandBuffer t) (unat (CmdBufIdxOut t)), CLI_STRING_NEWLINE cfg,
                   c_str (ResponseBuffer t) 0, CLI_STRING_NEWLINE cfg, CLI_STRING_PROMPT cfg],
             idle_state cfg ResponseBuffer_ptr)"
    proof (rule poll_dispatched)
      show "CLI_Status t = CLI_STATUS_ECHO OR CLI_STATUS_BUSY OR CLI_STATUS_BREAK"
        using echo F by (auto simp add: fields flag_values)
      show "CmdBufIdxOut t < CmdBufIdxIn t" by (rule lt)
      show "terminated (CommandBuffer t) (unat (CmdBufIdxOut t))"
        using tm by (simp add: fields terminated_update_NUL)
      show "length (CommandBuffer t) \<le> 65535"
        using len assms(2) by (simp add: fields)
      show "pResponse t = ResponseBuffer_ptr" by (simp add: fields)
    qed
    with at_k before_k show ?thesis by (simp add: fields res [unfolded fields])
  qed
  from inp res seq show ?thesis by (intro exI [of _ t]) blast
qed

theorem blank_line_witness:
  "\<exists>s2. CLI_Input example_config CommandSet (idle_state example_config ErrorMessage_Other)
           [CHR 0x0D, CHR 0x0A] = Some (USBD_OK, s2) \<and>
         c_str (ResponseBuffer s2) 0 = [] \<and>
         poll_until_idle 6 example_config s2 =
           Some ([[], [CHR 0x0D, CHR 0x0A], ''> ''], idle_state example_config ResponseBuffer_ptr)"
proof -
  let ?s = "idle_state example_config ErrorMessage_Other"
  let ?b = "?s\<lparr>CommandBuffer := CHR 0x0D # CHR 0x0A # replicate 14 NUL, CmdBufIdxIn := 2\<rparr>"
  let ?t = "?s\<lparr>CommandBuffer := NUL # CHR 0x0A # replicate 14 NUL, CmdBufIdxIn := 2,
               pResponse := ResponseBuffer_ptr, CLI_Status := 0x31\<rparr>"
  have 1: "0 < CLI_COMMAND_LENGTH example_config" by (simp add: example_config_def)
  have 2: "CLI_COMMAND_LENGTH example_config \<le> 65535" by (simp add: example_config_def)
  have 3: "0 < CLI_RESPONSE_LENGTH example_config" by (simp add: example_config_def)
  have 4: "run example_config CommandSet (initial_state example_config)
      [Output, Output, Output, Output, Output] = Some ?s"
    by code_simp
  have 5: "\<not> IS_STATUS ?s CLI_STATUS_BUSY" by (rule idle_state_not_busy)
  have 6: "[CHR 0x0D, CHR 0x0A] \<noteq> []" by simp
  have 7: "BufferInput example_config ?s [CHR 0x0D, CHR 0x0A] = Some (CLI_RESULT_OK, ?b)"
    by code_simp
  have 8: "strstr (CommandBuffer ?b) (CLI_STRING_NEWLINE example_config) = Some (Some 0)"
    by code_simp
  have 9: "set (take 0 (CommandBuffer ?b)) \<subseteq> {CHR '' ''}" by simp
  have val: "CLI_Input example_config CommandSet ?s [CHR 0x0D, CHR 0x0A] = Some (USBD_OK, ?t)"
    by code_simp
  from blank_line [OF 1 2 3 4 5 6 7 8 9]
  obtain s2 where s2:
    "CLI_Input example_config CommandSet ?s [CHR 0x0D, CHR 0x0A] = Some (USBD_OK, s2)"
    "c_str (ResponseBuffer s2) 0 = []"
    "CLI_STRING_NEWLINE example_config \<noteq> [] \<and>
       (CLI_Status ?s = CLI_STATUS_ECHO \<or>
        CLI_Status ?s = CLI_STATUS_ECHO OR CLI_STATUS_BREAK) \<longrightarrow>
              (unat (CmdBufIdxOut s2) = 0 \<longrightarrow>
                 c_str (CommandBuffer s2) (unat (CmdBufIdxOut s2)) = []) \<and>
              (unat (CmdBufIdxOut s2) < 0 \<longrightarrow>
                 c_str (CommandBuffer s2) (unat (CmdBufIdxOut s2)) \<noteq> []) \<and>
              poll_until_idle 6 example_config s2 =
                Some (if c_str (CommandBuffer s2) (unat (CmdBufIdxOut s2)) = []
                      then [[], CLI_STRING_NEWLINE example_config, CLI_STRING_PROMPT example_config]
                      else [c_str (CommandBuffer s2) (unat (CmdBufIdxOut s2)),
                            CLI_STRING_NEWLINE example_config, [], CLI_STRING_NEWLINE example_config,
                            CLI_STRING_PROMPT example_config],
                      idle_state example_config ResponseBuffer_ptr)"
    by (elim exE conjE) (rule that, assumption+)
  from s2(1) val have eq: "s2 = ?t" by simp
  have h: "CLI_STRING_NEWLINE example_config \<noteq> [] \<and>
       (CLI_Status ?s = CLI_STATUS_ECHO \<or>
        CLI_Status ?s = CLI_STATUS_ECHO OR CLI_STATUS_BREAK)"
    by (simp add: idle_state_def example_config_def)
  have o: "unat (CmdBufIdxOut s2) = 0" unfolding eq by (simp add: idle_state_def)
  from s2(3) h have r: "(unat (CmdBufIdxOut s2) = 0 \<longrightarrow>
                 c_str (CommandBuffer s2) (unat (CmdBufIdxOut s2)) = []) \<and>
              (unat (CmdBufIdxOut s2) < 0 \<longrightarrow>
                 c_str (CommandBuffer s2) (unat (CmdBufIdxOut s2)) \<noteq> []) \<and>
              poll_until_idle 6 example_config s2 =
                Some (if c_str (CommandBuffer s2) (unat (CmdBufIdxOut s2)) = []
                      then [[], CLI_STRING_NEWLINE example_config, CLI_STRING_PROMPT example_config]
                      else [c_str (CommandBuffer s2) (unat (CmdBufIdxOut s2)),
                            CLI_STRING_NEWLINE example_config, [], CLI_STRING_NEWLINE example_config,
                            CLI_STRING_PROMPT example_config],
                      idle_state example_config ResponseBuffer_ptr)"
    by (rule mp)
  from r o have e: "c_str (CommandBuffer s2) (unat (CmdBufIdxOut s2)) = []" by simp
  from r e have "poll_until_idle 6 example_config s2 =
      Some ([[], CLI_STRING_NEWLINE example_config, CLI_STRING_PROMPT example_config],
            idle_state example_config ResponseBuffer_ptr)"
    by simp
  with s2(1,2) show ?thesis by (intro exI [of _ s2]) (simp add: example_config_def)
qed

text \<open>
  The claim as stated has the response and its newline skipped for every blank line.
  For a line of two spaces fed to the idle state in one call, the third poll returns the
  response buffer (the empty string) and a second newline follows. And the flags at the
  time of the call matter: an empty line fed at program start, when no flag is set, is
  followed by a poll that returns nothing, the newline, the message for an unexpected
  state, a second newline and the prompt.
\<close>

theorem blank_line_counterexample:
  "CLI_Input example_config CommandSet (idle_state example_config NULL)
     (''  '' @ [CHR 0x0D, CHR 0x0A]) = Some (USBD_OK, example_spaces) \<and>
   poll_until_idle 6 example_config example_spaces
     = Some ([''  '', [CHR 0x0D, CHR 0x0A], [], [CHR 0x0D, CHR 0x0A], ''> ''],
             idle_state example_config ResponseBuffer_ptr) \<and>
   map_option fst (poll_until_idle 6 example_config example_spaces)
     \<noteq> Some [''  '', [CHR 0x0D, CHR 0x0A], ''> ''] \<and>
   poll 3 example_config example_spaces
     = Some ([Some ''  '', Some [CHR 0x0D, CHR 0x0A], Some []],
             example_spaces\<lparr>CmdBufIdxOut := 2, CLI_Status := 0x26\<rparr>) \<and>
   CLI_Input example_config CommandSet (initial_state example_config) [CHR 0x0D, CHR 0x0A]
     = Some (USBD_OK, example_first_line) \<and>
   poll 5 example_config example_first_line
     = Some ([None, Some [CHR 0x0D, CHR 0x0A], Some ''Error : Unexpected problem occured.'',
              Some [CHR 0x0D, CHR 0x0A], Some ''> ''],
             (idle_state example_config ErrorMessage_Other)\<lparr>CLI_Status := 0x11\<rparr>)"
  by code_simp

end
